theory Spec2Isabelle
  imports Main "HOL-Library.Word"
begin

unbundle bit_operations_syntax

section \<open>The CIDR block calculator (cidr-convert.c)\<close>

text \<open>
  The program reads dotted quads, dash-separated ranges and slash-width blocks from
  standard input, stores the addresses in a binary tree that is collapsed while it is
  built, and prints the blocks of the tree at end of input.

  Integer types. The embedding fixes the LP64 data model of the 64-bit Unix systems:
  \<^verbatim>\<open>unsigned long int\<close> is a 64-bit word (arithmetic wraps modulo \<open>2 ^ 64\<close>),
  \<^verbatim>\<open>unsigned int\<close> (the type of the constant \<^verbatim>\<open>0xffffffff\<close>) a 32-bit word, and
  \<^verbatim>\<open>int\<close> a 32-bit signed integer. The \<^verbatim>\<open>int\<close> variables \<^verbatim>\<open>n\<close>, \<^verbatim>\<open>bit\<close>, \<^verbatim>\<open>end\<close>
  and \<^verbatim>\<open>state\<close> stay far inside the 32-bit range (\<^verbatim>\<open>n\<close> is at most 2559), so they are
  modelled as HOL integers; so is \<^verbatim>\<open>line\<close>, which would need \<open>2 ^ 31\<close> line feeds to
  overflow. The one \<^verbatim>\<open>int\<close> expression that leaves the range, \<^verbatim>\<open>1<<bit\<close> at
  \<^verbatim>\<open>bit = 31\<close>, is modelled on a 32-bit word (see \<open>shl_one\<close>).
\<close>

type_synonym ulong = "64 word"
type_synonym uint = "32 word"

subsection \<open>The tree\<close>

text \<open>
  A \<^verbatim>\<open>NODE *\<close> is either the address of the static node \<^verbatim>\<open>none\<close>, the address of the
  static node \<^verbatim>\<open>all\<close>, or a node from \<^verbatim>\<open>malloc\<close> holding its two \<^verbatim>\<open>sub\<close> pointers.
  Allocated nodes are owned by exactly one parent slot and the two static nodes are never
  written, so a pointer is modelled by the tree it points to. (\<^verbatim>\<open>ALL\<close> is written
  \<open>ALL'\<close>: the plain name is taken by the quantifier.) \<^verbatim>\<open>malloc\<close> is taken to succeed,
  and \<^verbatim>\<open>free\<close> has no effect on a value.
\<close>

datatype node = NONE | ALL' | Node node node

text \<open>The test \<^verbatim>\<open>(n->sub[0] == ALL) && (n->sub[1] == ALL)\<close> with the two assignments
  that follow it, at the end of \<^verbatim>\<open>add_to_node\<close>.\<close>

definition collapse :: "node \<Rightarrow> node \<Rightarrow> node" where
  "collapse s0 s1 = (if s0 = ALL' \<and> s1 = ALL' then ALL' else Node s0 s1)"

text \<open>
  \<^verbatim>\<open>add_to_node(np, a, bit, end)\<close>, returning the new value of \<^verbatim>\<open>*np\<close>. The three
  equations are the three values of \<^verbatim>\<open>n\<close>; a \<^verbatim>\<open>NONE\<close> that is descended into is first
  replaced by a fresh node with two \<^verbatim>\<open>NONE\<close> children. The index \<^verbatim>\<open>(a>>bit)&1\<close> selects
  the child. The recursion is entered only when \<open>endp < bitp\<close>; all callers pass
  \<open>bitp = 31\<close> and \<open>- 1 \<le> endp\<close>, so the shift count is between 0 and 31.
\<close>

function add_to_node :: "node \<Rightarrow> ulong \<Rightarrow> int \<Rightarrow> int \<Rightarrow> node" where
  "add_to_node ALL' a bitp endp = ALL'"
| "add_to_node NONE a bitp endp =
     (if bitp \<le> endp then ALL'
      else if drop_bit (nat bitp) a AND 1 = 0
        then collapse (add_to_node NONE a (bitp - 1) endp) NONE
        else collapse NONE (add_to_node NONE a (bitp - 1) endp))"
| "add_to_node (Node s0 s1) a bitp endp =
     (if bitp \<le> endp then ALL'
      else if drop_bit (nat bitp) a AND 1 = 0
        then collapse (add_to_node s0 a (bitp - 1) endp) s1
        else collapse s0 (add_to_node s1 a (bitp - 1) endp))"
  by pat_completeness auto
termination
  by (relation "measure (\<lambda>(n, a, bitp, endp). nat (bitp - endp))") auto

text \<open>
  \<^verbatim>\<open>1<<bit\<close> is an \<^verbatim>\<open>int\<close> shift, converted to \<^verbatim>\<open>unsigned long\<close> by the \<^verbatim>\<open>|\<close> with
  \<^verbatim>\<open>v\<close>. For \<^verbatim>\<open>bit = 31\<close> the result is the most negative \<^verbatim>\<open>int\<close> on a two's
  complement machine, and the conversion extends its sign: bits 31 to 63 are set.
\<close>

definition shl_one :: "int \<Rightarrow> ulong" where
  "shl_one bitp = scast (push_bit (nat bitp) (1 :: uint))"

text \<open>
  \<^verbatim>\<open>dump_tree(n, v, bit)\<close>. The output is the list of the \<^verbatim>\<open>printf\<close> calls made, each
  recorded by the pair \<^verbatim>\<open>(v, 31-bit)\<close> its arguments are computed from; \<open>None\<close> is
  \<^verbatim>\<open>abort()\<close>.
\<close>

fun dump_tree :: "node \<Rightarrow> ulong \<Rightarrow> int \<Rightarrow> (ulong \<times> int) list option" where
  "dump_tree NONE v bitp = Some []"
| "dump_tree ALL' v bitp = Some [(v, 31 - bitp)]"
| "dump_tree (Node s0 s1) v bitp =
     (if bitp < 0 then None
      else case dump_tree s0 v (bitp - 1) of
             None \<Rightarrow> None
           | Some out0 \<Rightarrow>
               (case dump_tree s1 (v OR shl_one bitp) (bitp - 1) of
                  None \<Rightarrow> None
                | Some out1 \<Rightarrow> Some (out0 @ out1)))"

text \<open>Decimal conversion, as \<^verbatim>\<open>%lu\<close> and \<^verbatim>\<open>%d\<close> do it.\<close>

fun show_nat :: "nat \<Rightarrow> string" where
  "show_nat k =
     (if k < 10 then [char_of (48 + k)]
      else show_nat (k div 10) @ [char_of (48 + k mod 10)])"

declare show_nat.simps [simp del]

definition show_int :: "int \<Rightarrow> string" where
  "show_int i = (if i < 0 then CHR ''-'' # show_nat (nat (- i)) else show_nat (nat i))"

text \<open>The line written by
  \<^verbatim>\<open>printf("%lu.%lu.%lu.%lu/%d\n",v>>24&0xff,(v>>16)&0xff,(v>>8)&0xff,v&0xff,31-bit)\<close>.\<close>

definition printf_block :: "ulong \<times> int \<Rightarrow> string" where
  "printf_block p =
     (case p of (v, w) \<Rightarrow>
        show_nat (unat (drop_bit 24 v AND 0xff)) @ ''.'' @
        show_nat (unat (drop_bit 16 v AND 0xff)) @ ''.'' @
        show_nat (unat (drop_bit 8 v AND 0xff)) @ ''.'' @
        show_nat (unat (v AND 0xff)) @ ''/'' @ show_int w @ [CHR 0x0A])"

definition dump_output :: "node \<Rightarrow> string option" where
  "dump_output rt = map_option (\<lambda>ps. concat (map printf_block ps)) (dump_tree rt 0 31)"

subsection \<open>Saving addresses, ranges and blocks\<close>

definition save_one_addr :: "ulong \<Rightarrow> node \<Rightarrow> node" where
  "save_one_addr a rt = add_to_node rt a 31 (- 1)"

text \<open>
  \<^verbatim>\<open>n?a&0xffffffff&(0xffffffff<<(32-n)):0\<close>. The constant is an \<^verbatim>\<open>unsigned int\<close>, so
  the shift is a 32-bit shift whose result is then widened.
\<close>

definition cidr_base :: "ulong \<Rightarrow> int \<Rightarrow> ulong" where
  "cidr_base a n =
     (if n \<noteq> 0 then a AND 0xffffffff AND ucast (push_bit (nat (32 - n)) (0xffffffff :: uint))
      else 0)"

definition save_cidr :: "ulong \<Rightarrow> int \<Rightarrow> node \<Rightarrow> node" where
  "save_cidr a n rt = add_to_node rt (cidr_base a n) 31 (31 - n)"

text \<open>
  The loops of \<^verbatim>\<open>save_range\<close>. \<^verbatim>\<open>while (a1+m > a2) m >>= 1;\<close> does not end when
  \<open>a2 < a1\<close> and \<open>m = 0\<close>, and \<^verbatim>\<open>while (a1 <= a2)\<close> does not end when
  \<^verbatim>\<open>a1 += m+1\<close> wraps around, so both are partial functions: \<open>None\<close> is a loop that
  runs forever. \<^verbatim>\<open>for (bit=-1,t=m;t;bit++,t>>=1) ;\<close> always ends.
\<close>

partial_function (option) shrink :: "ulong \<Rightarrow> ulong \<Rightarrow> ulong \<Rightarrow> ulong option" where
  "shrink a1 a2 m = (if a1 + m > a2 then shrink a1 a2 (drop_bit 1 m) else Some m)"

declare shrink.simps [code]

function count_bit :: "int \<Rightarrow> ulong \<Rightarrow> int" where
  "count_bit bitp t = (if t \<noteq> 0 then count_bit (bitp + 1) (drop_bit 1 t) else bitp)"
  by pat_completeness auto
termination
proof (relation "measure (\<lambda>(bitp, t). unat t)")
  show "wf (measure (\<lambda>(bitp, t). unat t))"
    by simp
next
  fix bitp :: int and t :: ulong
  assume "t \<noteq> 0"
  then have "0 < unat t"
    by (simp add: unat_gt_0)
  then have "unat t div 2 < unat t"
    by simp
  then show "((bitp + 1, drop_bit 1 t), (bitp, t)) \<in> measure (\<lambda>(bitp, t). unat t)"
    by (simp add: drop_bit_eq_div unat_div)
qed

declare count_bit.simps [simp del]

partial_function (option) save_range_loop :: "ulong \<Rightarrow> ulong \<Rightarrow> node \<Rightarrow> node option" where
  "save_range_loop a1 a2 rt =
     (if a1 \<le> a2 then
        Option.bind (shrink a1 a2 ((a1 - 1) AND NOT a1))
          (\<lambda>m. save_range_loop (a1 + (m + 1)) a2 (add_to_node rt a1 31 (count_bit (- 1) m)))
      else Some rt)"

declare save_range_loop.simps [code]

text \<open>The diagnostics written to \<^verbatim>\<open>stderr\<close>: one constructor for each \<^verbatim>\<open>fprintf\<close> of
  the program, with the line number or character it prints.\<close>

datatype diag =
    Range_reversed
  | Number_out_of_range int
  | Width_out_of_range int
  | Dot_misplaced int
  | Dash_misplaced int
  | Slash_misplaced int
  | Whitespace_misplaced int
  | Eof_misplaced int
  | Invalid_character char

text \<open>\<^verbatim>\<open>save_range(a1, a2)\<close>: the new root and what was written to \<^verbatim>\<open>stderr\<close>.\<close>

definition save_range :: "ulong \<Rightarrow> ulong \<Rightarrow> node \<Rightarrow> (node \<times> diag list) option" where
  "save_range a1 a2 rt =
     (if a1 > a2 then Some (rt, [Range_reversed])
      else map_option (\<lambda>rt'. (rt', [])) (save_range_loop a1 a2 rt))"

subsection \<open>Reading the input\<close>

text \<open>
  The variables of \<^verbatim>\<open>read_input\<close> (\<open>p_state\<close>, \<open>p_line\<close>, \<open>p_n\<close>, \<open>p_a\<close>, \<open>p_a1\<close>
  for \<^verbatim>\<open>state\<close>, \<^verbatim>\<open>line\<close>, \<^verbatim>\<open>n\<close>, \<^verbatim>\<open>a\<close>, \<^verbatim>\<open>a1\<close>), the global \<^verbatim>\<open>root\<close>, and what
  has been written to \<^verbatim>\<open>stderr\<close>. The field \<open>calls\<close> is a history variable: the calls
  of \<^verbatim>\<open>save_one_addr\<close>, \<^verbatim>\<open>save_range\<close> and \<^verbatim>\<open>save_cidr\<close> made so far, with their
  arguments. Nothing reads it.
\<close>

datatype call = Save_one_addr ulong | Save_range ulong ulong | Save_cidr ulong int

record pstate =
  p_state :: int
  p_line :: int
  p_n :: int
  p_a :: ulong
  p_a1 :: ulong
  g_root :: node
  g_stderr :: "diag list"
  calls :: "call list"

text \<open>How a run can end without returning: \<^verbatim>\<open>abort()\<close>, or a loop of \<^verbatim>\<open>save_range\<close>
  that never ends.\<close>

datatype failure = Aborted | Diverged

definition complain :: "diag \<Rightarrow> pstate \<Rightarrow> pstate" where
  "complain d s = s\<lparr>g_stderr := g_stderr s @ [d]\<rparr>"

definition do_save_one_addr :: "ulong \<Rightarrow> pstate \<Rightarrow> pstate" where
  "do_save_one_addr x s =
     s\<lparr>g_root := save_one_addr x (g_root s), calls := calls s @ [Save_one_addr x]\<rparr>"

definition do_save_cidr :: "ulong \<Rightarrow> int \<Rightarrow> pstate \<Rightarrow> pstate" where
  "do_save_cidr x w s =
     s\<lparr>g_root := save_cidr x w (g_root s), calls := calls s @ [Save_cidr x w]\<rparr>"

definition do_save_range :: "ulong \<Rightarrow> ulong \<Rightarrow> pstate \<Rightarrow> failure + pstate" where
  "do_save_range x y s =
     (case save_range x y (g_root s) of
        None \<Rightarrow> Inl Diverged
      | Some (rt, ds) \<Rightarrow>
          Inr (s\<lparr>g_root := rt, g_stderr := g_stderr s @ ds,
                 calls := calls s @ [Save_range x y]\<rparr>))"

text \<open>\<^verbatim>\<open>(a << 8) | n\<close>, with \<^verbatim>\<open>n\<close> converted to \<^verbatim>\<open>unsigned long\<close>.\<close>

definition shift_in :: "ulong \<Rightarrow> int \<Rightarrow> ulong" where
  "shift_in x k = push_bit 8 x OR word_of_int k"

text \<open>The inner \<^verbatim>\<open>switch (state)\<close> for a digit; \<open>d\<close> is \<^verbatim>\<open>c - '0'\<close>. States 3, 5, 7,
  12, 14 and 16 increment the state and fall through to the accumulation of the octet.\<close>

definition on_digit :: "pstate \<Rightarrow> int \<Rightarrow> failure + pstate" where
  "on_digit s d =
     (let st = p_state s in
      if st = 1 then Inr (s\<lparr>p_n := d, p_state := 2\<rparr>)
      else if st \<in> {3, 5, 7, 12, 14, 16} \<or> st \<in> {2, 4, 6, 8, 11, 13, 15, 17} then
        (let s' = (if st \<in> {3, 5, 7, 12, 14, 16} then s\<lparr>p_state := st + 1\<rparr> else s) in
         if p_n s' < 0 then Inr s'
         else if p_n s' * 10 + d > 255
           then Inr (complain (Number_out_of_range (p_line s')) s'\<lparr>p_n := - 1\<rparr>)
           else Inr (s'\<lparr>p_n := p_n s' * 10 + d\<rparr>))
      else if st = 9 then
        Inr ((if p_n s \<ge> 0 then (do_save_one_addr (p_a s) s)\<lparr>p_n := d\<rparr> else s)
               \<lparr>p_state := 2\<rparr>)
      else if st = 10 \<or> st = 18 then
        Inr ((if p_n s \<ge> 0 then s\<lparr>p_n := d\<rparr> else s)\<lparr>p_state := st + 1\<rparr>)
      else if st = 19 then
        (if p_n s < 0 then Inr s
         else if p_n s * 10 + d > 32
           then Inr (complain (Width_out_of_range (p_line s)) s\<lparr>p_n := - 1\<rparr>)
           else Inr (s\<lparr>p_n := p_n s * 10 + d\<rparr>))
      else Inl Aborted)"

text \<open>The \<^verbatim>\<open>switch (state)\<close> for \<^verbatim>\<open>'.'\<close>. States 2 and 11 clear \<^verbatim>\<open>a\<close> and fall through.\<close>

definition on_dot :: "pstate \<Rightarrow> failure + pstate" where
  "on_dot s =
     (let st = p_state s in
      if st \<in> {1, 3, 5, 7, 8, 10, 12, 14, 16, 17, 18, 19} then
        Inr ((if p_n s \<ge> 0 then complain (Dot_misplaced (p_line s)) s else s)\<lparr>p_n := - 1\<rparr>)
      else if st \<in> {2, 11} \<or> st \<in> {4, 6, 13, 15} then
        (let s' = (if st \<in> {2, 11} then s\<lparr>p_a := 0\<rparr> else s) in
         Inr ((if p_n s' \<ge> 0 then s'\<lparr>p_a := shift_in (p_a s') (p_n s'), p_n := 0\<rparr> else s')
                \<lparr>p_state := st + 1\<rparr>))
      else if st = 9 then
        Inr ((if p_n s \<ge> 0
              then complain (Dot_misplaced (p_line s)) (do_save_one_addr (p_a s) s)
              else s)\<lparr>p_n := - 1\<rparr>)
      else Inl Aborted)"

text \<open>The \<^verbatim>\<open>switch (state)\<close> for \<^verbatim>\<open>'-'\<close>.\<close>

definition on_dash :: "pstate \<Rightarrow> failure + pstate" where
  "on_dash s =
     (let st = p_state s in
      if st \<in> {1..7} \<or> st \<in> {10..19} then
        Inr ((complain (Dash_misplaced (p_line s)) s)\<lparr>p_n := - 1\<rparr>)
      else if st = 8 then
        Inr ((if p_n s \<ge> 0 then s\<lparr>p_a1 := shift_in (p_a s) (p_n s)\<rparr> else s)\<lparr>p_state := 10\<rparr>)
      else if st = 9 then Inr (s\<lparr>p_a1 := p_a s, p_state := 10\<rparr>)
      else Inl Aborted)"

text \<open>The \<^verbatim>\<open>switch (state)\<close> for \<^verbatim>\<open>'/'\<close>.\<close>

definition on_slash :: "pstate \<Rightarrow> failure + pstate" where
  "on_slash s =
     (let st = p_state s in
      if st \<in> {1..7} \<or> st \<in> {10..19} then
        Inr ((complain (Slash_misplaced (p_line s)) s)\<lparr>p_n := - 1\<rparr>)
      else if st = 8 then
        Inr ((if p_n s \<ge> 0 then s\<lparr>p_a := shift_in (p_a s) (p_n s)\<rparr> else s)\<lparr>p_state := 18\<rparr>)
      else if st = 9 then Inr (s\<lparr>p_state := 18\<rparr>)
      else Inl Aborted)"

text \<open>The \<^verbatim>\<open>switch (state)\<close> for white space.\<close>

definition on_space :: "pstate \<Rightarrow> failure + pstate" where
  "on_space s =
     (let st = p_state s in
      if st \<in> {1, 9, 10, 18} then Inr s
      else if st \<in> {2..7} \<or> st \<in> {11..16} then
        Inr ((if p_n s \<ge> 0 then complain (Whitespace_misplaced (p_line s)) s else s)
               \<lparr>p_state := 1\<rparr>)
      else if st = 8 then
        Inr ((if p_n s \<ge> 0 then s\<lparr>p_a := shift_in (p_a s) (p_n s)\<rparr> else s)\<lparr>p_state := 9\<rparr>)
      else if st = 17 then
        (if p_n s \<ge> 0
         then (case do_save_range (p_a1 s) (shift_in (p_a s) (p_n s)) s of
                 Inl e \<Rightarrow> Inl e
               | Inr s' \<Rightarrow> Inr (s'\<lparr>p_state := 1\<rparr>))
         else Inr (s\<lparr>p_state := 1\<rparr>))
      else if st = 19 then
        Inr ((if p_n s \<ge> 0 then do_save_cidr (p_a s) (p_n s) s else s)\<lparr>p_state := 1\<rparr>)
      else Inl Aborted)"

text \<open>The \<^verbatim>\<open>default\<close> of the \<^verbatim>\<open>switch (c)\<close>.\<close>

definition on_other :: "pstate \<Rightarrow> char \<Rightarrow> failure + pstate" where
  "on_other s c = Inr ((complain (Invalid_character c) s)\<lparr>p_n := - 1, p_state := 2\<rparr>)"

text \<open>\<^verbatim>\<open>c - '0'\<close>.\<close>

definition digit_val :: "char \<Rightarrow> int" where
  "digit_val c = of_char c - of_char CHR ''0''"

text \<open>One turn of the \<^verbatim>\<open>while (1)\<close> loop, for the character \<open>c\<close> read by \<^verbatim>\<open>getchar\<close>:
  the outer \<^verbatim>\<open>switch (c)\<close>. A line feed increments \<^verbatim>\<open>line\<close> and falls through to the
  white space.\<close>

definition step :: "pstate \<Rightarrow> char \<Rightarrow> failure + pstate" where
  "step s c =
     (if c \<in> set ''0123456789'' then on_digit s (digit_val c)
      else if c = CHR ''.'' then on_dot s
      else if c = CHR ''-'' then on_dash s
      else if c = CHR ''/'' then on_slash s
      else if c = CHR 0x0A then on_space (s\<lparr>p_line := p_line s + 1\<rparr>)
      else if c = CHR '' '' \<or> c = CHR 0x09 \<or> c = CHR 0x0D then on_space s
      else on_other s c)"

text \<open>The loop over the input: the list is what \<^verbatim>\<open>getchar\<close> returns before \<^verbatim>\<open>EOF\<close>.\<close>

fun steps :: "pstate \<Rightarrow> char list \<Rightarrow> failure + pstate" where
  "steps s [] = Inr s"
| "steps s (c # cs) = (case step s c of Inl e \<Rightarrow> Inl e | Inr s' \<Rightarrow> steps s' cs)"

text \<open>The \<^verbatim>\<open>switch (state)\<close> after the loop. It has no case for the states 18 and 19,
  which reach the \<^verbatim>\<open>default\<close>.\<close>

definition at_eof :: "pstate \<Rightarrow> failure + pstate" where
  "at_eof s =
     (let st = p_state s in
      if st = 1 then Inr s
      else if st \<in> {2..7} \<or> st \<in> {10..16} then
        Inr (if p_n s \<ge> 0 then complain (Eof_misplaced (p_line s)) s else s)
      else if st = 8 then
        Inr (if p_n s \<ge> 0 then do_save_one_addr (shift_in (p_a s) (p_n s)) s else s)
      else if st = 9 then
        Inr (if p_n s \<ge> 0 then do_save_one_addr (p_a s) s else s)
      else if st = 17 then
        (if p_n s \<ge> 0 then do_save_range (p_a1 s) (shift_in (p_a s) (p_n s)) s else Inr s)
      else Inl Aborted)"

text \<open>
  The state at the start of \<^verbatim>\<open>read_input\<close>, with the \<^verbatim>\<open>root\<close> that \<^verbatim>\<open>main\<close> has set.
  \<^verbatim>\<open>a\<close> and \<^verbatim>\<open>a1\<close> are not initialised by the program; \<open>a0\<close> and \<open>a10\<close> stand for
  whatever they hold.
\<close>

definition init_state :: "ulong \<Rightarrow> ulong \<Rightarrow> pstate" where
  "init_state a0 a10 =
     \<lparr>p_state = 1, p_line = 1, p_n = 0, p_a = a0, p_a1 = a10,
      g_root = NONE, g_stderr = [], calls = []\<rparr>"

definition read_input_from :: "pstate \<Rightarrow> char list \<Rightarrow> failure + pstate" where
  "read_input_from s cs = (case steps s cs of Inl e \<Rightarrow> Inl e | Inr s' \<Rightarrow> at_eof s')"

definition read_input :: "ulong \<Rightarrow> ulong \<Rightarrow> char list \<Rightarrow> failure + pstate" where
  "read_input a0 a10 cs = read_input_from (init_state a0 a10) cs"

text \<open>What a run of the program on the input \<open>cs\<close> shows: it exits with a status,
  having written \<^verbatim>\<open>stdout\<close> and \<^verbatim>\<open>stderr\<close>, or it fails.\<close>

datatype outcome = Exit int string "diag list" | Fails failure

definition main :: "ulong \<Rightarrow> ulong \<Rightarrow> char list \<Rightarrow> outcome" where
  "main a0 a10 cs =
     (case read_input a0 a10 cs of
        Inl e \<Rightarrow> Fails e
      | Inr s \<Rightarrow>
          (case dump_output (g_root s) of
             None \<Rightarrow> Fails Aborted
           | Some out \<Rightarrow> Exit 0 out (g_stderr s)))"

subsection \<open>Notions used to state the properties\<close>

text \<open>The number that a run of digits \<open>ds\<close> adds to an accumulator holding \<open>k\<close>: the
  decimal value of the digits read so far.\<close>

definition decimal_from :: "int \<Rightarrow> char list \<Rightarrow> int" where
  "decimal_from k ds = foldl (\<lambda>k c. k * 10 + digit_val c) k ds"

text \<open>
  What a tree stands for. \<open>holds n x bitp\<close>: the address \<open>x\<close> is marked in the subtree
  \<open>n\<close>, which sits at level \<open>bitp\<close> on the path of \<open>x\<close> (the root is at level 31 and
  discriminates bit 31). Below level 0 only \<^verbatim>\<open>NONE\<close> and \<^verbatim>\<open>ALL\<close> mean anything.
\<close>

fun holds :: "node \<Rightarrow> ulong \<Rightarrow> int \<Rightarrow> bool" where
  "holds NONE x bitp = False"
| "holds ALL' x bitp = True"
| "holds (Node s0 s1) x bitp =
     (0 \<le> bitp \<and> (if bit x (nat bitp) then holds s1 x (bitp - 1) else holds s0 x (bitp - 1)))"

text \<open>Invariant C of the specification: no node has two \<^verbatim>\<open>ALL\<close> children.\<close>

fun canonical :: "node \<Rightarrow> bool" where
  "canonical NONE = True"
| "canonical ALL' = True"
| "canonical (Node s0 s1) = (\<not> (s0 = ALL' \<and> s1 = ALL') \<and> canonical s0 \<and> canonical s1)"

text \<open>Invariant D: a subtree at level \<open>bitp\<close> has allocated nodes at the levels \<open>bitp\<close>
  down to 0 only, so that \<^verbatim>\<open>dump_tree\<close> does not reach its \<^verbatim>\<open>abort()\<close>.\<close>

fun fits :: "node \<Rightarrow> int \<Rightarrow> bool" where
  "fits NONE bitp = True"
| "fits ALL' bitp = True"
| "fits (Node s0 s1) bitp = (0 \<le> bitp \<and> fits s0 (bitp - 1) \<and> fits s1 (bitp - 1))"

text \<open>
  The addresses of a printed block. A line printed for the pair \<open>(v, w)\<close> shows the low
  32 bits of \<open>v\<close> and the width \<open>w\<close>; it denotes the 32-bit addresses that agree with
  \<open>v\<close> on the \<open>w\<close> high bits, the bits 31 down to \<open>32 - w\<close>.
\<close>

definition in_block :: "ulong \<Rightarrow> ulong \<times> int \<Rightarrow> bool" where
  "in_block x p =
     (x < 2 ^ 32 \<and> (\<forall>i. nat (32 - snd p) \<le> i \<and> i < 32 \<longrightarrow> bit x i = bit (fst p) i))"

text \<open>The addresses that a call commits: one address, the addresses from \<open>lo\<close> to \<open>hi\<close>,
  or the block of width \<open>w\<close> around \<open>a\<close>.\<close>

fun call_addrs :: "call \<Rightarrow> ulong set" where
  "call_addrs (Save_one_addr a) = {a}"
| "call_addrs (Save_range lo hi) = {x. lo \<le> x \<and> x \<le> hi}"
| "call_addrs (Save_cidr a w) = {x. in_block x (a, w)}"

text \<open>
  The outer loop of \<^verbatim>\<open>save_range\<close> cut off after \<open>k\<close> turns: the same body as
  \<open>save_range_loop\<close>, and \<open>None\<close> when the loop would go into turn \<open>k + 1\<close>. It is
  used to count the turns of the loop.
\<close>

fun save_range_upto :: "nat \<Rightarrow> ulong \<Rightarrow> ulong \<Rightarrow> node \<Rightarrow> node option" where
  "save_range_upto 0 a1 a2 rt = (if a1 \<le> a2 then None else Some rt)"
| "save_range_upto (Suc k) a1 a2 rt =
     (if a1 \<le> a2 then
        Option.bind (shrink a1 a2 ((a1 - 1) AND NOT a1))
          (\<lambda>m. save_range_upto k (a1 + (m + 1)) a2 (add_to_node rt a1 31 (count_bit (- 1) m)))
      else Some rt)"

text \<open>
  The shape of a pair printed by \<^verbatim>\<open>dump_tree(n, v, bit)\<close>: its width is at least the
  depth of \<open>n\<close>, more when \<open>n\<close> is not \<^verbatim>\<open>ALL\<close>, and its address agrees with \<open>v\<close> above
  the level of \<open>n\<close>.
\<close>

definition block_ok :: "node \<Rightarrow> ulong \<Rightarrow> int \<Rightarrow> ulong \<times> int \<Rightarrow> bool" where
  "block_ok n v b p \<longleftrightarrow>
     31 - b \<le> snd p \<and> snd p \<le> 32 \<and> (n \<noteq> ALL' \<longrightarrow> 32 - b \<le> snd p) \<and>
     (\<forall>i. b < int i \<and> i < 32 \<longrightarrow> bit (fst p) i = bit v i)"

text \<open>
  Invariants of the run, used in the proofs. \<open>bounded\<close>: the state is one of the 19,
  \<^verbatim>\<open>n\<close> is at most 255 (at most 32 in state 19), \<^verbatim>\<open>a\<close> holds as many octets as
  the state says, and \<^verbatim>\<open>a1\<close> is a 32-bit address while a range is read without error.
  \<open>tree_ok\<close>: the root satisfies the invariants C and D and holds exactly the addresses
  that the calls made so far have committed, all of them below \<open>2 ^ 32\<close>.
\<close>

definition bounded :: "pstate \<Rightarrow> bool" where
  "bounded s \<longleftrightarrow>
     1 \<le> p_state s \<and> p_state s \<le> 19 \<and> p_n s \<le> 255 \<and>
     (p_state s \<in> {3, 4, 12, 13} \<longrightarrow> unat (p_a s) < 2 ^ 8) \<and>
     (p_state s \<in> {5, 6, 14, 15} \<longrightarrow> unat (p_a s) < 2 ^ 16) \<and>
     (p_state s \<in> {7, 8, 16, 17} \<longrightarrow> unat (p_a s) < 2 ^ 24) \<and>
     (p_state s \<in> {9, 18, 19} \<longrightarrow> unat (p_a s) < 2 ^ 32) \<and>
     (p_state s \<in> {10..17} \<and> 0 \<le> p_n s \<longrightarrow> unat (p_a1 s) < 2 ^ 32) \<and>
     (p_state s = 19 \<longrightarrow> p_n s \<le> 32)"

definition tree_ok :: "node \<Rightarrow> call list \<Rightarrow> bool" where
  "tree_ok rt cs \<longleftrightarrow>
     fits rt 31 \<and> canonical rt \<and>
     (\<forall>c \<in> set cs. \<forall>x \<in> call_addrs c. x < 2 ^ 32) \<and>
     (\<forall>x. x < 2 ^ 32 \<longrightarrow> (holds rt x 31 \<longleftrightarrow> (\<exists>c \<in> set cs. x \<in> call_addrs c)))"

definition run_inv :: "pstate \<Rightarrow> bool" where
  "run_inv s \<longleftrightarrow> bounded s \<and> tree_ok (g_root s) (calls s)"

section \<open>Properties\<close>

subsection \<open>Evaluation\<close>

lemmas step_defs = step_def on_digit_def on_dot_def on_dash_def on_slash_def on_space_def
  on_other_def complain_def do_save_one_addr_def do_save_cidr_def do_save_range_def
  shift_in_def

declare show_nat.simps [code]

lemma add_to_node_at_level: "bitp \<le> endp \<Longrightarrow> add_to_node rt a bitp endp = ALL'"
  by (cases rt) simp_all

lemma ulong_low32: "(0xffffffff :: ulong) = mask 32"
  by (simp add: mask_eq_exp_minus_1)

lemma uint_all_ones: "(0xffffffff :: uint) = mask 32"
  by (simp add: mask_eq_exp_minus_1)

subsection \<open>Errors and resynchronisation\<close>

text \<open>
  C3. On the input \<^verbatim>\<open>10.0.0.256\n10.0.0.1\n\<close> the program writes one out-of-range
  diagnostic and, according to the claim, the line \<^verbatim>\<open>10.0.0.1/32\<close>. The program writes
  the diagnostic and nothing to \<^verbatim>\<open>stdout\<close>: the white space after the bad quad leads
  from state 8 to state 9 with \<^verbatim>\<open>n = -1\<close>, and the digit that follows enters state 2
  without resetting \<^verbatim>\<open>n\<close>, so the second quad is read with the error still latched.
\<close>

theorem s6_second_address_not_committed:
  "main a0 a10 (''10.0.0.256'' @ [CHR 0x0A] @ ''10.0.0.1'' @ [CHR 0x0A]) =
     Exit 0 [] [Number_out_of_range 1]"
  by code_simp

lemma latched_after_bad_quad:
  "steps (init_state a0 a10) ''1.2.3.256 5'' =
     Inr \<lparr>p_state = 2, p_line = 1, p_n = - 1, p_a = 0x010203, p_a1 = a10, g_root = NONE,
          g_stderr = [Number_out_of_range 1], calls = []\<rparr>"
  by (simp add: step_defs digit_val_def init_state_def)

text \<open>
  C4. The claim: after an error the next transition into a first-octet state, on the
  first digit after white space, leaves \<^verbatim>\<open>n\<close> different from \<open>- 1\<close>, so that the unit
  that follows is read normally. The program enters state 2 from state 9 with the latch
  still set, and the well-formed unit \<^verbatim>\<open>5.6.7.8\<close> after the bad one is lost.
\<close>

theorem latch_survives_entry_into_state_2:
  "(\<exists>s. steps (init_state a0 a10) ''1.2.3.256 5'' = Inr s \<and> p_state s = 2 \<and> p_n s = - 1) \<and>
   main a0 a10 (''1.2.3.256 5.6.7.8'' @ [CHR 0x0A]) = Exit 0 [] [Number_out_of_range 1]"
proof
  show "\<exists>s. steps (init_state a0 a10) ''1.2.3.256 5'' = Inr s \<and> p_state s = 2 \<and> p_n s = - 1"
    by (subst latched_after_bad_quad) simp
  show "main a0 a10 (''1.2.3.256 5.6.7.8'' @ [CHR 0x0A]) = Exit 0 [] [Number_out_of_range 1]"
    by code_simp
qed

subsection \<open>Octets\<close>

lemma digit_val_range: "c \<in> set ''0123456789'' \<Longrightarrow> 0 \<le> digit_val c \<and> digit_val c \<le> 9"
  by (auto simp: digit_val_def)

lemma step_digit: "c \<in> set ''0123456789'' \<Longrightarrow> step s c = on_digit s (digit_val c)"
  by (simp only: step_def if_True)

lemma decimal_from_mono:
  "0 \<le> k \<Longrightarrow> set ds \<subseteq> set ''0123456789'' \<Longrightarrow> k \<le> decimal_from k ds"
proof (induction ds arbitrary: k)
  case Nil
  then show ?case by (simp add: decimal_from_def)
next
  case (Cons c cs)
  have c: "c \<in> set ''0123456789''" and cs: "set cs \<subseteq> set ''0123456789''"
    using Cons.prems(2) by auto
  have d: "0 \<le> digit_val c" using digit_val_range [OF c] by simp
  have "k \<le> k * 10 + digit_val c" using Cons.prems(1) d by simp
  also have "\<dots> \<le> decimal_from (k * 10 + digit_val c) cs"
    using Cons.IH [of "k * 10 + digit_val c"] Cons.prems(1) d cs by simp
  finally show ?case by (simp add: decimal_from_def)
qed

lemma latched_digits:
  "p_state s \<in> {2, 4, 6, 8, 11, 13, 15, 17} \<Longrightarrow> p_n s < 0 \<Longrightarrow>
   set ds \<subseteq> set ''0123456789'' \<Longrightarrow> steps s ds = Inr s"
proof (induction ds)
  case Nil
  then show ?case by simp
next
  case (Cons c cs)
  have c: "c \<in> set ''0123456789''" using Cons.prems(3) by auto
  have "step s c = Inr s"
    using Cons.prems(1,2) by (auto simp: step_digit [OF c] on_digit_def)
  then show ?case using Cons by simp
qed

text \<open>
  C9. The claim: an octet with a fourth digit is an error even when its value is at most
  255, and \<^verbatim>\<open>0001.0.0.1\<close> commits nothing. The program counts no digits; it only
  compares the accumulated value with 255, and \<^verbatim>\<open>0001.0.0.1\<close> commits 1.0.0.1.
\<close>

theorem four_digit_octet_is_accepted:
  "\<forall>a0 a10. main a0 a10 (''0001.0.0.1'' @ [CHR 0x0A]) = Exit 0 (''1.0.0.1/32'' @ [CHR 0x0A]) []"
  by (intro allI) code_simp

text \<open>
  C9, as amended. In a state that accumulates an octet (2, 4, 6, 8, 11, 13, 15, 17) with
  no error latched, a run of digits of any length is accepted when the decimal value
  accumulated stays at most 255; when the value exceeds 255 the run leaves one
  out-of-range diagnostic and \<^verbatim>\<open>n = -1\<close>.
\<close>

theorem octet_accepted_by_value:
  assumes "p_state s \<in> {2, 4, 6, 8, 11, 13, 15, 17}"
    and "0 \<le> p_n s" and "p_n s \<le> 255"
    and "set ds \<subseteq> set ''0123456789''"
  shows "steps s ds =
     Inr (if decimal_from (p_n s) ds \<le> 255 then s\<lparr>p_n := decimal_from (p_n s) ds\<rparr>
          else (complain (Number_out_of_range (p_line s)) s)\<lparr>p_n := - 1\<rparr>)"
  using assms
proof (induction ds arbitrary: s)
  case Nil
  then show ?case by (simp add: decimal_from_def)
next
  case (Cons c cs)
  have c: "c \<in> set ''0123456789''" and cs: "set cs \<subseteq> set ''0123456789''"
    using Cons.prems(4) by auto
  have d: "0 \<le> digit_val c" using digit_val_range [OF c] by simp
  let ?k = "p_n s * 10 + digit_val c"
  have unf: "decimal_from (p_n s) (c # cs) = decimal_from ?k cs"
    by (simp add: decimal_from_def)
  show ?case
  proof (cases "?k > 255")
    case True
    let ?s1 = "(complain (Number_out_of_range (p_line s)) s)\<lparr>p_n := - 1\<rparr>"
    have st: "step s c = Inr ?s1"
      using Cons.prems(1,2) True by (auto simp: step_digit [OF c] on_digit_def)
    have "steps ?s1 cs = Inr ?s1"
      using Cons.prems(1) cs by (intro latched_digits) (auto simp: complain_def)
    moreover have "255 < decimal_from ?k cs"
      using decimal_from_mono [of ?k cs] True cs by simp
    ultimately show ?thesis using st unf by simp
  next
    case False
    let ?s1 = "s\<lparr>p_n := ?k\<rparr>"
    have st: "step s c = Inr ?s1"
      using Cons.prems(1,2) False by (auto simp: step_digit [OF c] on_digit_def)
    have k0: "0 \<le> ?k" using Cons.prems(2) d by simp
    have "steps ?s1 cs =
      Inr (if decimal_from (p_n ?s1) cs \<le> 255 then ?s1\<lparr>p_n := decimal_from (p_n ?s1) cs\<rparr>
           else (complain (Number_out_of_range (p_line ?s1)) ?s1)\<lparr>p_n := - 1\<rparr>)"
      using Cons.prems(1) k0 False cs by (intro Cons.IH) auto
    then show ?thesis using st unf by (simp add: complain_def)
  qed
qed

theorem octet_accepted_by_value_witness:
  "(let s = \<lparr>p_state = 2, p_line = 1, p_n = 0, p_a = 0, p_a1 = 0, g_root = NONE,
             g_stderr = [], calls = []\<rparr>
    in p_state s \<in> {2, 4, 6, 8, 11, 13, 15, 17} \<and> 0 \<le> p_n s \<and> p_n s \<le> 255 \<and>
       set ''001'' \<subseteq> set ''0123456789'' \<and> steps s ''001'' = Inr (s\<lparr>p_n := 1\<rparr>)) \<and>
   (let s = \<lparr>p_state = 8, p_line = 3, p_n = 2, p_a = 0x0A0000, p_a1 = 0, g_root = NONE,
             g_stderr = [], calls = []\<rparr>
    in steps s ''56'' = Inr (s\<lparr>p_n := - 1, g_stderr := [Number_out_of_range 3]\<rparr>))"
  using
    octet_accepted_by_value [of "\<lparr>p_state = 2, p_line = 1, p_n = 0, p_a = 0, p_a1 = 0,
      g_root = NONE, g_stderr = [], calls = []\<rparr>" "''001''"]
    octet_accepted_by_value [of "\<lparr>p_state = 8, p_line = 3, p_n = 2, p_a = 0x0A0000, p_a1 = 0,
      g_root = NONE, g_stderr = [], calls = []\<rparr>" "''56''"]
  by (simp add: decimal_from_def digit_val_def complain_def Let_def del: steps.simps)



subsection \<open>Blocks\<close>

lemma bit_cidr_base:
  assumes "0 \<le> w" and "w \<le> 32"
  shows "bit (cidr_base a w) i \<longleftrightarrow> bit a i \<and> nat (32 - w) \<le> i \<and> i < 32"
proof (cases "w = 0")
  case True
  then show ?thesis by (simp add: cidr_base_def)
next
  case False
  then show ?thesis
    using assms
    by (auto simp: cidr_base_def ulong_low32 uint_all_ones bit_and_iff bit_ucast_iff
        bit_push_bit_iff bit_mask_iff)
qed

text \<open>
  C7. \<^verbatim>\<open>save_cidr(a, n)\<close> adds the block of width \<open>w\<close> at the address that keeps of \<open>a\<close>
  the \<open>w\<close> high bits of the 32 and clears the rest. For width 0 the address is 0, taken
  from the conditional and not from a shift, and the root becomes \<^verbatim>\<open>ALL\<close> whatever the
  tree was; for the other widths the mask is shifted by \<open>32 - w\<close>, less than 32. The
  input \<^verbatim>\<open>0.0.0.0/0\n\<close> leaves the root \<^verbatim>\<open>ALL\<close> and prints \<^verbatim>\<open>0.0.0.0/0\<close>.
\<close>

theorem save_cidr_masks_the_address:
  assumes "0 \<le> w" and "w \<le> 32"
  shows "save_cidr a w rt = add_to_node rt (cidr_base a w) 31 (31 - w) \<and>
     (\<forall>i. bit (cidr_base a w) i \<longleftrightarrow> bit a i \<and> nat (32 - w) \<le> i \<and> i < 32) \<and>
     (if w = 0 then cidr_base a w = 0
      else cidr_base a w =
          a AND 0xffffffff AND ucast (push_bit (nat (32 - w)) (0xffffffff :: uint)) \<and>
        nat (32 - w) < 32) \<and>
     save_cidr a 0 rt = ALL' \<and>
     (\<exists>s. read_input a0 a10 (''0.0.0.0/0'' @ [CHR 0x0A]) = Inr s \<and> g_root s = ALL' \<and>
          calls s = [Save_cidr 0 0]) \<and>
     main a0 a10 (''0.0.0.0/0'' @ [CHR 0x0A]) = Exit 0 (''0.0.0.0/0'' @ [CHR 0x0A]) []"
proof (intro conjI)
  show "save_cidr a w rt = add_to_node rt (cidr_base a w) 31 (31 - w)"
    by (simp add: save_cidr_def)
  show "\<forall>i. bit (cidr_base a w) i \<longleftrightarrow> bit a i \<and> nat (32 - w) \<le> i \<and> i < 32"
    using bit_cidr_base [OF assms] by blast
  show "if w = 0 then cidr_base a w = 0
      else cidr_base a w =
          a AND 0xffffffff AND ucast (push_bit (nat (32 - w)) (0xffffffff :: uint)) \<and>
        nat (32 - w) < 32"
    using assms by (auto simp: cidr_base_def)
  show "save_cidr a 0 rt = ALL'"
    by (simp add: save_cidr_def add_to_node_at_level)
  have "read_input a0 a10 (''0.0.0.0/0'' @ [CHR 0x0A]) =
      Inr \<lparr>p_state = 1, p_line = 2, p_n = 0, p_a = 0, p_a1 = a10, g_root = ALL',
           g_stderr = [], calls = [Save_cidr 0 0]\<rparr>"
    by (simp add: read_input_def read_input_from_def at_eof_def step_defs digit_val_def
        init_state_def save_cidr_def cidr_base_def)
  then show "\<exists>s. read_input a0 a10 (''0.0.0.0/0'' @ [CHR 0x0A]) = Inr s \<and> g_root s = ALL' \<and>
      calls s = [Save_cidr 0 0]"
    by simp
  show "main a0 a10 (''0.0.0.0/0'' @ [CHR 0x0A]) = Exit 0 (''0.0.0.0/0'' @ [CHR 0x0A]) []"
    by code_simp
qed

theorem save_cidr_masks_the_address_witness:
  "(0::int) \<le> 8 \<and> (8::int) \<le> 32 \<and> cidr_base 0x0A010203 8 = 0x0A000000 \<and>
   save_cidr 0x0A010203 8 NONE = add_to_node NONE 0x0A000000 31 23 \<and>
   (\<forall>i. bit (0x0A000000 :: ulong) i \<longleftrightarrow> bit (0x0A010203 :: ulong) i \<and> 24 \<le> i \<and> i < 32) \<and>
   save_cidr 0x0A010203 0 (Node NONE ALL') = ALL'"
proof -
  have c: "cidr_base 0x0A010203 8 = 0x0A000000"
    by (simp add: cidr_base_def)
  show ?thesis
    using save_cidr_masks_the_address [of 8 "0x0A010203" "Node NONE ALL'" 0 0]
      save_cidr_masks_the_address [of 8 "0x0A010203" NONE 0 0] c
    by simp
qed

subsection \<open>The tree and the addresses it holds\<close>

lemma index_bit: "drop_bit k (a :: ulong) AND 1 = 0 \<longleftrightarrow> \<not> bit a k"
  by (simp add: bit_iff_odd_drop_bit and_one_eq mod_2_eq_odd)

lemma canonical_collapse: "canonical s0 \<Longrightarrow> canonical s1 \<Longrightarrow> canonical (collapse s0 s1)"
  by (simp add: collapse_def)

lemma canonical_add_to_node: "canonical n \<Longrightarrow> canonical (add_to_node n a b e)"
  by (induction n a b e rule: add_to_node.induct) (simp_all add: canonical_collapse)

lemma fits_collapse: "0 \<le> b \<Longrightarrow> fits s0 (b - 1) \<Longrightarrow> fits s1 (b - 1) \<Longrightarrow> fits (collapse s0 s1) b"
  by (simp add: collapse_def)

lemma fits_add_to_node: "fits n b \<Longrightarrow> - 1 \<le> e \<Longrightarrow> fits (add_to_node n a b e) b"
  by (induction n a b e rule: add_to_node.induct) (auto simp: fits_collapse)

lemma holds_collapse:
  "0 \<le> b \<Longrightarrow> holds (collapse s0 s1) x b \<longleftrightarrow> (if bit x (nat b) then holds s1 x (b - 1) else holds s0 x (b - 1))"
  by (simp add: collapse_def)

lemma upto_split:
  assumes b: "0 \<le> b"
  shows "(\<forall>i. e < int i \<and> int i \<le> b \<longrightarrow> P i) \<longleftrightarrow>
     (e < b \<longrightarrow> P (nat b)) \<and> (\<forall>i. e < int i \<and> int i \<le> b - 1 \<longrightarrow> P i)"
proof
  assume L: "\<forall>i. e < int i \<and> int i \<le> b \<longrightarrow> P i"
  show "(e < b \<longrightarrow> P (nat b)) \<and> (\<forall>i. e < int i \<and> int i \<le> b - 1 \<longrightarrow> P i)"
  proof (intro conjI impI allI)
    assume "e < b"
    then show "P (nat b)" using L [rule_format, of "nat b"] b by simp
  next
    fix i assume "e < int i \<and> int i \<le> b - 1"
    then show "P i" using L [rule_format, of i] by simp
  qed
next
  assume R: "(e < b \<longrightarrow> P (nat b)) \<and> (\<forall>i. e < int i \<and> int i \<le> b - 1 \<longrightarrow> P i)"
  show "\<forall>i. e < int i \<and> int i \<le> b \<longrightarrow> P i"
  proof (intro allI impI)
    fix i assume i: "e < int i \<and> int i \<le> b"
    show "P i"
    proof (cases "int i = b")
      case True
      then have "i = nat b" by simp
      then show ?thesis using R i True by simp
    next
      case False
      then show ?thesis using R i by simp
    qed
  qed
qed


lemma holds_add_to_node:
  "- 1 \<le> e \<Longrightarrow> e \<le> b \<Longrightarrow>
   holds (add_to_node n a b e) x b \<longleftrightarrow>
     holds n x b \<or> (\<forall>i. e < int i \<and> int i \<le> b \<longrightarrow> bit x i = bit a i)"
proof (induction n a b e rule: add_to_node.induct)
  case (1 a b e)
  then show ?case by simp
next
  case (2 a b e)
  show ?case
  proof (cases "b \<le> e")
    case True
    then have "b = e" using 2 by simp
    then show ?thesis by auto
  next
    case False
    then have b: "0 \<le> b" "e \<le> b - 1" "e < b" using 2 by auto
    have IH: "holds (add_to_node NONE a (b - 1) e) x (b - 1) \<longleftrightarrow>
        (\<forall>i. e < int i \<and> int i \<le> b - 1 \<longrightarrow> bit x i = bit a i)"
    proof (cases "drop_bit (nat b) a AND 1 = 0")
      case True
      from 2(1) [OF False True 2(3) b(2)] show ?thesis by simp
    next
      case F: False
      from 2(2) [OF False F 2(3) b(2)] show ?thesis by simp
    qed
    show ?thesis
      unfolding upto_split [OF b(1), of e]
      using False b IH by (simp add: index_bit holds_collapse)
  qed
next
  case (3 s0 s1 a b e)
  show ?case
  proof (cases "b \<le> e")
    case True
    then have "b = e" using 3 by simp
    then show ?thesis by auto
  next
    case False
    then have b: "0 \<le> b" "e \<le> b - 1" "e < b" using 3 by auto
    show ?thesis
    proof (cases "drop_bit (nat b) a AND 1 = 0")
      case True
      from 3(1) [OF False True 3(3) b(2)] show ?thesis
        unfolding upto_split [OF b(1), of e]
        using False b True by (auto simp add: index_bit holds_collapse)
    next
      case F: False
      from 3(2) [OF False F 3(3) b(2)] show ?thesis
        unfolding upto_split [OF b(1), of e]
        using False b F by (auto simp add: index_bit holds_collapse)
    qed
  qed
qed

lemma bit_shl_one: "0 \<le> b \<Longrightarrow> b \<le> 31 \<Longrightarrow> i < 32 \<Longrightarrow> bit (shl_one b) i \<longleftrightarrow> i = nat b"
  by (auto simp: shl_one_def bit_simps min_def)

lemma dump_tree_shape:
  assumes "fits n b" and "- 1 \<le> b" and "b \<le> 31" and "\<forall>i. int i \<le> b \<longrightarrow> \<not> bit v i"
  shows "\<exists>blocks. dump_tree n v b = Some blocks \<and> (\<forall>p \<in> set blocks. block_ok n v b p)"
  using assms
proof (induction n arbitrary: v b)
  case NONE
  then show ?case by simp
next
  case ALL'
  then show ?case by (simp add: block_ok_def)
next
  case (Node s0 s1)
  from Node.prems have b: "0 \<le> b" "fits s0 (b - 1)" "fits s1 (b - 1)" "- 1 \<le> b - 1" "b - 1 \<le> 31"
    by auto
  have z0: "\<forall>i. int i \<le> b - 1 \<longrightarrow> \<not> bit v i"
    using Node.prems(4) by auto
  have z1: "\<forall>i. int i \<le> b - 1 \<longrightarrow> \<not> bit (v OR shl_one b) i"
  proof (intro allI impI)
    fix i assume i: "int i \<le> b - 1"
    then have "i < 32" "i \<noteq> nat b" using Node.prems(3) b(1) by auto
    then show "\<not> bit (v OR shl_one b) i"
      using Node.prems(3,4) b(1) i by (simp add: bit_or_iff bit_shl_one)
  qed
  from Node.IH(1) [OF b(2) b(4) b(5) z0] obtain out0 where
    o0: "dump_tree s0 v (b - 1) = Some out0" "\<forall>p \<in> set out0. block_ok s0 v (b - 1) p"
    by blast
  from Node.IH(2) [OF b(3) b(4) b(5) z1] obtain out1 where
    o1: "dump_tree s1 (v OR shl_one b) (b - 1) = Some out1"
      "\<forall>p \<in> set out1. block_ok s1 (v OR shl_one b) (b - 1) p"
    by blast
  have d: "dump_tree (Node s0 s1) v b = Some (out0 @ out1)"
    using b(1) o0(1) o1(1) by simp
  have "block_ok (Node s0 s1) v b p" if p: "p \<in> set out0 \<or> p \<in> set out1" for p
  proof -
    from p show ?thesis
    proof
      assume "p \<in> set out0"
      then have "block_ok s0 v (b - 1) p" using o0(2) by blast
      then show ?thesis by (auto simp: block_ok_def)
    next
      assume "p \<in> set out1"
      then have ok: "block_ok s1 (v OR shl_one b) (b - 1) p" using o1(2) by blast
      have "bit (fst p) i = bit v i" if i: "b < int i" "i < 32" for i
      proof -
        have "bit (fst p) i = bit (v OR shl_one b) i"
          using ok i by (simp add: block_ok_def)
        moreover have "i \<noteq> nat b" using i b(1) by auto
        ultimately show ?thesis
          using i Node.prems(3) b(1) by (simp add: bit_or_iff bit_shl_one)
      qed
      then show ?thesis using ok by (auto simp: block_ok_def)
    qed
  qed
  then show ?case using d by auto
qed

lemma block_ok_left:
  assumes "block_ok s0 v (b - 1) p" and "0 \<le> b" and "b \<le> 31" and "\<not> bit v (nat b)"
  shows "\<not> bit (fst p) (nat b) \<and> nat (32 - snd p) \<le> nat b \<and> 32 - b \<le> snd p \<and> snd p \<le> 32"
proof -
  have "b - 1 < int (nat b)" "nat b < 32" using assms(2,3) by auto
  then have "bit (fst p) (nat b) = bit v (nat b)"
    using assms(1) by (simp add: block_ok_def)
  then show ?thesis using assms by (auto simp: block_ok_def)
qed

lemma block_ok_right:
  assumes "block_ok s1 (v OR shl_one b) (b - 1) p" and "0 \<le> b" and "b \<le> 31"
  shows "bit (fst p) (nat b) \<and> nat (32 - snd p) \<le> nat b \<and> 32 - b \<le> snd p \<and> snd p \<le> 32"
proof -
  have "b - 1 < int (nat b)" "nat b < 32" using assms(2,3) by auto
  then have "bit (fst p) (nat b) = bit (v OR shl_one b) (nat b)"
    using assms(1) by (simp add: block_ok_def)
  moreover have "bit (shl_one b) (nat b)"
    using assms(2,3) by (simp add: bit_shl_one)
  ultimately show ?thesis using assms by (auto simp: block_ok_def bit_or_iff)
qed

lemma low_bits_right:
  assumes "\<forall>i. int i \<le> b \<longrightarrow> \<not> bit v i" and "0 \<le> b" and "b \<le> 31"
  shows "\<forall>i. int i \<le> b - 1 \<longrightarrow> \<not> bit (v OR shl_one b) i"
proof (intro allI impI)
  fix i assume i: "int i \<le> b - 1"
  then have "i < 32" "i \<noteq> nat b" using assms(2,3) by auto
  then show "\<not> bit (v OR shl_one b) i"
    using assms i by (simp add: bit_or_iff bit_shl_one)
qed

lemma dump_tree_count:
  assumes "fits n b" and "- 1 \<le> b" and "b \<le> 31" and "\<forall>i. int i \<le> b \<longrightarrow> \<not> bit v i"
    and "x < 2 ^ 32" and "\<forall>i. b < int i \<and> i < 32 \<longrightarrow> bit x i = bit v i"
    and "dump_tree n v b = Some blocks"
  shows "length (filter (in_block x) blocks) = (if holds n x b then 1 else 0)"
  using assms
proof (induction n arbitrary: v b blocks)
  case NONE
  then show ?case by auto
next
  case ALL'
  have "nat (32 - (31 - b)) \<le> i \<longleftrightarrow> b < int i" for i
    using ALL'.prems(2) by auto
  then have "in_block x (v, 31 - b)"
    using ALL'.prems(5,6) by (simp add: in_block_def)
  then show ?case using ALL'.prems(7) by auto
next
  case (Node s0 s1)
  from Node.prems have b: "0 \<le> b" "fits s0 (b - 1)" "fits s1 (b - 1)" "- 1 \<le> b - 1" "b - 1 \<le> 31"
    by auto
  have nb: "\<not> bit v (nat b)" using Node.prems(4) b(1) by simp
  have z0: "\<forall>i. int i \<le> b - 1 \<longrightarrow> \<not> bit v i"
    using Node.prems(4) by auto
  have z1: "\<forall>i. int i \<le> b - 1 \<longrightarrow> \<not> bit (v OR shl_one b) i"
    using low_bits_right [OF Node.prems(4) b(1) Node.prems(3)] .
  from dump_tree_shape [OF b(2) b(4) b(5) z0] obtain out0 where
    o0: "dump_tree s0 v (b - 1) = Some out0" "\<forall>p \<in> set out0. block_ok s0 v (b - 1) p"
    by blast
  from dump_tree_shape [OF b(3) b(4) b(5) z1] obtain out1 where
    o1: "dump_tree s1 (v OR shl_one b) (b - 1) = Some out1"
      "\<forall>p \<in> set out1. block_ok s1 (v OR shl_one b) (b - 1) p"
    by blast
  have bl: "blocks = out0 @ out1"
    using Node.prems(7) b(1) o0(1) o1(1) by simp
  show ?case
  proof (cases "bit x (nat b)")
    case True
    have "\<not> in_block x p" if "p \<in> set out0" for p
    proof -
      from that o0(2) have "block_ok s0 v (b - 1) p" by blast
      from block_ok_left [OF this b(1) Node.prems(3) nb]
      show ?thesis using True Node.prems(3) b(1)
        by (auto simp: in_block_def)
    qed
    then have f0: "filter (in_block x) out0 = []"
      by (simp add: filter_empty_conv)
    have r: "\<forall>i. b - 1 < int i \<and> i < 32 \<longrightarrow> bit x i = bit (v OR shl_one b) i"
    proof (intro allI impI)
      fix i assume i: "b - 1 < int i \<and> i < 32"
      show "bit x i = bit (v OR shl_one b) i"
      proof (cases "i = nat b")
        case True
        then show ?thesis using \<open>bit x (nat b)\<close> b(1) Node.prems(3)
          by (simp add: bit_or_iff bit_shl_one)
      next
        case False
        then have "b < int i" using i by auto
        then show ?thesis using Node.prems(6) i False b(1) Node.prems(3)
          by (simp add: bit_or_iff bit_shl_one)
      qed
    qed
    from Node.IH(2) [OF b(3) b(4) b(5) z1 Node.prems(5) r o1(1)]
    show ?thesis using f0 bl True b(1) by simp
  next
    case False
    have "\<not> in_block x p" if "p \<in> set out1" for p
    proof -
      from that o1(2) have "block_ok s1 (v OR shl_one b) (b - 1) p" by blast
      from block_ok_right [OF this b(1) Node.prems(3)]
      show ?thesis using False Node.prems(3) b(1)
        by (auto simp: in_block_def)
    qed
    then have f1: "filter (in_block x) out1 = []"
      by (simp add: filter_empty_conv)
    have r: "\<forall>i. b - 1 < int i \<and> i < 32 \<longrightarrow> bit x i = bit v i"
    proof (intro allI impI)
      fix i assume i: "b - 1 < int i \<and> i < 32"
      show "bit x i = bit v i"
      proof (cases "i = nat b")
        case True
        then show ?thesis using False nb by simp
      next
        case F: False
        then have "b < int i" using i by auto
        then show ?thesis using Node.prems(6) i by simp
      qed
    qed
    from Node.IH(1) [OF b(2) b(4) b(5) z0 Node.prems(5) r o0(1)]
    show ?thesis using f1 bl False b(1) by simp
  qed
qed

lemma dump_tree_no_buddies:
  assumes "canonical n" and "fits n b" and "- 1 \<le> b" and "b \<le> 31"
    and "\<forall>i. int i \<le> b \<longrightarrow> \<not> bit v i"
    and "dump_tree n v b = Some blocks"
    and "p \<in> set blocks" and "q \<in> set blocks" and "snd p = snd q"
  shows "take_bit 32 (fst p) XOR take_bit 32 (fst q) \<noteq> push_bit (nat (32 - snd p)) 1"
  using assms
proof (induction n arbitrary: v b blocks)
  case NONE
  then show ?case by simp
next
  case ALL'
  then show ?case by auto
next
  case (Node s0 s1)
  from Node.prems have b: "0 \<le> b" "fits s0 (b - 1)" "fits s1 (b - 1)" "- 1 \<le> b - 1" "b - 1 \<le> 31"
    and c: "canonical s0" "canonical s1" "\<not> (s0 = ALL' \<and> s1 = ALL')"
    by auto
  have nb: "\<not> bit v (nat b)" using Node.prems(5) b(1) by simp
  have z0: "\<forall>i. int i \<le> b - 1 \<longrightarrow> \<not> bit v i"
    using Node.prems(5) by auto
  have z1: "\<forall>i. int i \<le> b - 1 \<longrightarrow> \<not> bit (v OR shl_one b) i"
    using low_bits_right [OF Node.prems(5) b(1) Node.prems(4)] .
  from dump_tree_shape [OF b(2) b(4) b(5) z0] obtain out0 where
    o0: "dump_tree s0 v (b - 1) = Some out0" "\<forall>p \<in> set out0. block_ok s0 v (b - 1) p"
    by blast
  from dump_tree_shape [OF b(3) b(4) b(5) z1] obtain out1 where
    o1: "dump_tree s1 (v OR shl_one b) (b - 1) = Some out1"
      "\<forall>p \<in> set out1. block_ok s1 (v OR shl_one b) (b - 1) p"
    by blast
  have bl: "blocks = out0 @ out1"
    using Node.prems(6) b(1) o0(1) o1(1) by simp
  have cross: "take_bit 32 (fst l) XOR take_bit 32 (fst r) \<noteq> push_bit (nat (32 - snd l)) 1"
    if l: "l \<in> set out0" and r: "r \<in> set out1" and w: "snd l = snd r" for l r
  proof
    assume eq: "take_bit 32 (fst l) XOR take_bit 32 (fst r) = push_bit (nat (32 - snd l)) 1"
    from l o0(2) have okl: "block_ok s0 v (b - 1) l" by blast
    from r o1(2) have okr: "block_ok s1 (v OR shl_one b) (b - 1) r" by blast
    note L = block_ok_left [OF okl b(1) Node.prems(4) nb]
    note R = block_ok_right [OF okr b(1) Node.prems(4)]
    have "nat b < 32" using Node.prems(4) b(1) by auto
    then have "bit (take_bit 32 (fst l) XOR take_bit 32 (fst r)) (nat b)"
      using L R by (simp add: bit_xor_iff bit_take_bit_iff)
    then have "bit (push_bit (nat (32 - snd l)) (1 :: ulong)) (nat b)"
      using eq by simp
    then have "nat b = nat (32 - snd l)"
      by (auto simp: bit_exp_iff)
    then have wl: "snd l = 32 - b" using L b(1) by auto
    then have "s0 = ALL'" using okl by (auto simp: block_ok_def)
    moreover have "s1 = ALL'" using okr wl w by (auto simp: block_ok_def)
    ultimately show False using c(3) by simp
  qed
  from Node.prems(7,8) bl have "p \<in> set out0 \<or> p \<in> set out1" "q \<in> set out0 \<or> q \<in> set out1"
    by auto
  then consider "p \<in> set out0" "q \<in> set out0" | "p \<in> set out1" "q \<in> set out1"
    | "p \<in> set out0" "q \<in> set out1" | "q \<in> set out0" "p \<in> set out1"
    by blast
  then show ?case
  proof cases
    case 1
    from Node.IH(1) [OF c(1) b(2) b(4) b(5) z0 o0(1) 1 Node.prems(9)] show ?thesis .
  next
    case 2
    from Node.IH(2) [OF c(2) b(3) b(4) b(5) z1 o1(1) 2 Node.prems(9)] show ?thesis .
  next
    case 3
    from cross [OF 3 Node.prems(9)] show ?thesis .
  next
    case 4
    from cross [OF 4 Node.prems(9) [symmetric]] show ?thesis
      using Node.prems(9) by (simp add: xor.commute)
  qed
qed

subsection \<open>The loops of save_range\<close>

lemma minus_one_bits:
  fixes a :: ulong
  assumes z: "take_bit t a = 0" and s: "bit a t"
  shows "a - 1 = (a AND NOT (2 ^ t)) OR mask t"
proof -
  have "a - 2 ^ t = a AND NOT (2 ^ t)"
    by (rule disjunctive_diff) (use s in \<open>auto simp: bit_exp_iff\<close>)
  moreover have "(a AND NOT (2 ^ t)) + mask t = (a AND NOT (2 ^ t)) OR mask t"
  proof (rule disjunctive_add)
    fix n
    have "\<not> bit a n" if "n < t"
    proof -
      have "bit (take_bit t a) n = bit a n" using that by (simp add: bit_take_bit_iff)
      then show ?thesis using z by simp
    qed
    then show "\<not> bit (a AND NOT (2 ^ t)) n \<or> \<not> bit (mask t :: ulong) n"
      by (auto simp: bit_and_iff bit_mask_iff)
  qed
  moreover have "a - 1 = (a - 2 ^ t) + mask t"
    by (simp add: mask_eq_exp_minus_1)
  ultimately show ?thesis by simp
qed

lemma low_mask_nonzero:
  fixes a :: ulong
  assumes z: "take_bit t a = 0" and s: "bit a t"
  shows "(a - 1) AND NOT a = mask t"
proof (rule bit_word_eqI)
  fix n assume n: "n < LENGTH(64)"
  have low: "\<not> bit a i" if "i < t" for i
  proof -
    have "bit (take_bit t a) i = bit a i" using that by (simp add: bit_take_bit_iff)
    then show ?thesis using z by simp
  qed
  have t: "t < 64" using s by (auto dest: bit_imp_le_length)
  show "bit ((a - 1) AND NOT a) n \<longleftrightarrow> bit (mask t :: ulong) n"
    unfolding minus_one_bits [OF z s]
    using n low [of n] s t
    by (auto simp: bit_and_iff bit_or_iff bit_not_iff bit_mask_iff bit_exp_iff)
qed

lemma low_mask:
  fixes a :: ulong
  shows "\<exists>t \<le> 64. (a - 1) AND NOT a = mask t \<and> take_bit t a = 0 \<and>
    (if a = 0 then t = 64 else bit a t)"
proof (cases "a = 0")
  case True
  have "(- 1 :: ulong) = mask 64"
    by (simp add: mask_eq_exp_minus_1)
  then show ?thesis using True by (intro exI [of _ 64]) simp
next
  case False
  then obtain n where "bit a n" by (auto simp: bit_eq_iff)
  define t where "t = (LEAST n. bit a n)"
  have s: "bit a t" unfolding t_def using \<open>bit a n\<close> by (rule LeastI)
  have "\<not> bit a i" if "i < t" for i
    using that not_less_Least unfolding t_def by blast
  then have z: "take_bit t a = 0"
    by (auto simp: bit_eq_iff bit_take_bit_iff)
  have "t < 64" using s by (auto dest: bit_imp_le_length)
  then show ?thesis using low_mask_nonzero [OF z s] z s False by (intro exI [of _ t]) simp
qed

lemma drop_bit_mask_word:
  "k < 64 \<Longrightarrow> drop_bit 1 (mask (Suc k) :: ulong) = mask k"
  by (intro bit_word_eqI) (auto simp: bit_drop_bit_eq bit_mask_iff)

lemma count_bit_mask: "k \<le> 64 \<Longrightarrow> count_bit b (mask k) = b + int k"
proof (induction k arbitrary: b)
  case 0
  then show ?case by (simp add: count_bit.simps)
next
  case (Suc k)
  have nz: "(mask (Suc k) :: ulong) \<noteq> 0"
  proof
    assume "(mask (Suc k) :: ulong) = 0"
    then have "bit (mask (Suc k) :: ulong) 0 = bit (0 :: ulong) 0" by simp
    then show False by (simp add: bit_mask_iff)
  qed
  have "drop_bit 1 (mask (Suc k) :: ulong) = mask k"
    using Suc.prems by (intro bit_word_eqI) (auto simp: bit_drop_bit_eq bit_mask_iff)
  then show ?case using Suc nz by (subst count_bit.simps) simp
qed

lemma unat_mask_ulong:
  assumes "k \<le> 64"
  shows "unat (mask k :: ulong) = 2 ^ k - 1"
proof -
  have "unat (mask k :: ulong) = unat (take_bit k (- 1 :: ulong))"
    by simp
  also have "\<dots> = take_bit k (unat (- 1 :: ulong))"
    by (rule unsigned_take_bit_eq)
  also have "\<dots> = take_bit k (mask 64 :: nat)"
    by (simp add: unsigned_minus_1_eq_mask)
  also have "\<dots> = mask k"
    using assms by (simp add: min_def)
  finally show ?thesis by (simp add: mask_eq_exp_minus_1)
qed

lemma aligned_iff: "take_bit k (a :: ulong) = 0 \<longleftrightarrow> 2 ^ k dvd unat a"
proof -
  have "take_bit k a = 0 \<longleftrightarrow> unat (take_bit k a) = 0"
    by (simp add: unat_eq_0)
  also have "unat (take_bit k a) = take_bit k (unat a)"
    by (rule unsigned_take_bit_eq)
  also have "take_bit k (unat a) = unat a mod 2 ^ k"
    by (rule take_bit_eq_mod)
  finally show ?thesis by (simp add: dvd_eq_mod_eq_0)
qed

lemma aligned_room:
  fixes A :: nat
  assumes "2 ^ k dvd A" and "A < 2 ^ 64" and "k \<le> 64"
  shows "A + 2 ^ k \<le> 2 ^ 64"
proof -
  obtain q where q: "A = 2 ^ k * q" using assms(1) by (auto elim: dvdE)
  have p: "(2::nat) ^ 64 = 2 ^ k * 2 ^ (64 - k)"
    using assms(3) by (simp flip: power_add)
  have "q < 2 ^ (64 - k)"
    using assms(2) unfolding q p by simp
  then have "q + 1 \<le> 2 ^ (64 - k)" by simp
  then have "2 ^ k * (q + 1) \<le> 2 ^ k * 2 ^ (64 - k)"
    by (rule mult_le_mono2)
  then show ?thesis unfolding q p by simp
qed

lemma unat_add_mask:
  assumes "take_bit k (a :: ulong) = 0" and "k \<le> 64"
  shows "unat (a + mask k) = unat a + (2 ^ k - 1)"
proof -
  have "unat a < 2 ^ 64"
    using unsigned_less [of a, where ?'a = nat] by simp
  moreover have "2 ^ k dvd unat a"
    using assms(1) by (simp add: aligned_iff)
  ultimately have "unat a + 2 ^ k \<le> 2 ^ 64"
    using assms(2) by (intro aligned_room)
  then have "unat a + unat (mask k :: ulong) < 2 ^ LENGTH(64)"
    using assms(2) by (simp add: unat_mask_ulong)
  then have "unat (a + mask k) = unat a + unat (mask k :: ulong)"
    by (simp only: unat_add_lem)
  then show ?thesis using assms(2) by (simp add: unat_mask_ulong)
qed

lemma take_bit_Suc_zero: "take_bit (Suc j) (a :: ulong) = 0 \<Longrightarrow> take_bit j a = 0"
  by (auto simp: aligned_iff dest: dvd_mult_right)

lemma shrink_mask:
  assumes "take_bit j a1 = 0" and "a1 \<le> a2" and "j \<le> 64"
  shows "\<exists>k \<le> j. shrink a1 a2 (mask j) = Some (mask k) \<and> unat a1 + 2 ^ k \<le> unat a2 + 1 \<and>
     (\<forall>i. k < i \<and> i \<le> j \<longrightarrow> unat a2 + 1 < unat a1 + 2 ^ i)"
  using assms
proof (induction j)
  case 0
  have "\<not> a2 < a1"
    using 0(2) by simp
  then have "shrink a1 a2 (mask 0) = Some (mask 0)"
    by (subst shrink.simps) simp
  then show ?case using 0(2) by (intro exI [of _ 0]) (simp add: word_le_nat_alt)
next
  case (Suc j)
  have u: "unat (a1 + mask (Suc j)) = unat a1 + (2 ^ Suc j - 1)"
    using unat_add_mask [OF Suc.prems(1,3)] .
  show ?case
  proof (cases "a1 + mask (Suc j) > a2")
    case True
    then have gt: "unat a2 + 1 < unat a1 + 2 ^ Suc j"
      using u by (simp add: word_less_nat_alt)
    have j: "j < 64" "j \<le> 64" using Suc.prems(3) by auto
    from Suc.IH [OF take_bit_Suc_zero [OF Suc.prems(1)] Suc.prems(2) j(2)]
    obtain k where k: "k \<le> j" "shrink a1 a2 (mask j) = Some (mask k)"
      "unat a1 + 2 ^ k \<le> unat a2 + 1"
      "\<forall>i. k < i \<and> i \<le> j \<longrightarrow> unat a2 + 1 < unat a1 + 2 ^ i"
      by blast
    have "shrink a1 a2 (mask (Suc j)) = Some (mask k)"
      using True k(2) drop_bit_mask_word [OF j(1)] by (subst shrink.simps) simp
    moreover have "\<forall>i. k < i \<and> i \<le> Suc j \<longrightarrow> unat a2 + 1 < unat a1 + 2 ^ i"
      using k(4) gt by (auto simp: le_Suc_eq)
    ultimately show ?thesis using k(1,3) by (intro exI [of _ k]) simp
  next
    case False
    then have le: "unat a1 + 2 ^ Suc j \<le> unat a2 + 1"
      using u by (simp add: word_less_nat_alt)
    have "shrink a1 a2 (mask (Suc j)) = Some (mask (Suc j))"
      using False by (subst shrink.simps) simp
    then show ?thesis using le by (intro exI [of _ "Suc j"]) simp
  qed
qed

lemma bit_not_aligned: "bit (a :: ulong) t \<Longrightarrow> \<not> 2 ^ Suc t dvd unat a"
proof
  assume b: "bit a t" and "2 ^ Suc t dvd unat a"
  then have "take_bit (Suc t) a = 0" by (simp only: aligned_iff)
  then have "bit (take_bit (Suc t) a) t = bit (0 :: ulong) t" by simp
  then show False using b by (simp add: bit_take_bit_iff)
qed

lemma exp_le_2p32:
  assumes "(2::nat) ^ k \<le> 2 ^ 32"
  shows "k \<le> 32"
  by (rule power_le_imp_le_exp [OF _ assms]) simp

lemma unat_exp_ulong:
  assumes "k < 64"
  shows "unat (2 ^ k :: ulong) = 2 ^ k"
proof -
  have "unat (2 ^ k :: ulong) = unat (push_bit k (1 :: ulong))"
    by (simp add: push_bit_eq_mult)
  also have "\<dots> = take_bit 64 (push_bit k (unat (1 :: ulong)))"
    by (simp only: unsigned_push_bit_eq) simp
  also have "\<dots> = take_bit 64 ((2::nat) ^ k)"
    by (simp add: push_bit_eq_mult)
  also have "\<dots> = 2 ^ k"
    using assms by (simp add: take_bit_nat_eq_self_iff)
  finally show ?thesis .
qed

lemma range_block:
  assumes "a1 \<le> a2" and "unat a2 < 2 ^ 32"
  shows "\<exists>k \<le> 32. shrink a1 a2 ((a1 - 1) AND NOT a1) = Some (mask k) \<and>
     2 ^ k dvd unat a1 \<and> unat a1 + 2 ^ k \<le> unat a2 + 1 \<and>
     (\<forall>i. 2 ^ i dvd unat a1 \<and> unat a1 + 2 ^ i \<le> unat a2 + 1 \<longrightarrow> i \<le> k)"
proof -
  from low_mask [of a1] obtain t where t: "t \<le> 64" "(a1 - 1) AND NOT a1 = mask t"
    "take_bit t a1 = 0" "if a1 = 0 then t = 64 else bit a1 t"
    by blast
  from shrink_mask [OF t(3) assms(1) t(1)] obtain k where k: "k \<le> t"
    "shrink a1 a2 (mask t) = Some (mask k)" "unat a1 + 2 ^ k \<le> unat a2 + 1"
    "\<forall>i. k < i \<and> i \<le> t \<longrightarrow> unat a2 + 1 < unat a1 + 2 ^ i"
    by blast
  have "(2::nat) ^ k \<le> 2 ^ 32" using k(3) assms(2) by simp
  then have k32: "k \<le> 32" by (rule exp_le_2p32)
  have al: "2 ^ k dvd unat a1"
  proof -
    have "take_bit k a1 = 0"
      using t(3) k(1) by (auto simp: aligned_iff intro: dvd_trans le_imp_power_dvd)
    then show ?thesis by (simp only: aligned_iff)
  qed
  have mx: "i \<le> k" if i: "2 ^ i dvd unat a1" "unat a1 + 2 ^ i \<le> unat a2 + 1" for i
  proof (rule ccontr)
    assume "\<not> i \<le> k"
    then have ki: "k < i" by simp
    have "(2::nat) ^ i \<le> 2 ^ 32" using i(2) assms(2) by simp
    then have i32: "i \<le> 32" by (rule exp_le_2p32)
    have "i \<le> t"
    proof (cases "a1 = 0")
      case True
      then show ?thesis using t(4) i32 by simp
    next
      case False
      then have "bit a1 t" using t(4) by simp
      then have n: "\<not> 2 ^ Suc t dvd unat a1" by (rule bit_not_aligned)
      show ?thesis
      proof (rule ccontr)
        assume "\<not> i \<le> t"
        then have "Suc t \<le> i" by simp
        then have "(2::nat) ^ Suc t dvd 2 ^ i" by (rule le_imp_power_dvd)
        then show False using n i(1) dvd_trans by blast
      qed
    qed
    then have "unat a2 + 1 < unat a1 + 2 ^ i" using k(4) ki by simp
    then show False using i(2) by simp
  qed
  show ?thesis using k32 k(2) k(3) al mx t(2) by (intro exI [of _ k]) simp
qed

lemma unat_advance:
  fixes a1 a2 :: ulong
  assumes "unat a1 + 2 ^ k \<le> unat a2 + 1" and "unat a2 < 2 ^ 32" and "k \<le> 32"
  shows "unat (a1 + 2 ^ k) = unat a1 + 2 ^ k"
proof -
  have "k < 64" using assms(3) by simp
  then have p: "unat (2 ^ k :: ulong) = 2 ^ k" by (rule unat_exp_ulong)
  have "unat a1 + unat (2 ^ k :: ulong) < 2 ^ LENGTH(64)"
    using assms(1,2) unfolding p by simp
  then have "unat (a1 + 2 ^ k) = unat a1 + unat (2 ^ k :: ulong)"
    by (simp only: unat_add_lem)
  then show ?thesis unfolding p .
qed

lemma loop_unfold:
  assumes "a1 \<le> a2" and "shrink a1 a2 ((a1 - 1) AND NOT a1) = Some (mask k)" and "k \<le> 32"
  shows "save_range_loop a1 a2 rt =
     save_range_loop (a1 + 2 ^ k) a2 (add_to_node rt a1 31 (int k - 1))"
proof -
  have "count_bit (- 1) (mask k) = int k - 1"
    using assms(3) by (simp add: count_bit_mask)
  moreover have "(mask k :: ulong) + 1 = 2 ^ k"
    by (simp add: mask_eq_exp_minus_1)
  ultimately show ?thesis
    using assms(1,2) by (subst save_range_loop.simps) simp
qed

lemma high_bits_zero:
  assumes "unat (x :: ulong) < 2 ^ 32" and "32 \<le> i"
  shows "\<not> bit x i"
proof -
  have "x < 2 ^ 32"
    using assms(1) by (simp add: word_less_nat_alt)
  then have "x AND mask 32 = x"
    by (rule less_mask_eq)
  then have "bit x i = bit (x AND mask 32) i" by simp
  then show ?thesis using assms(2) by (simp add: bit_and_iff bit_mask_iff)
qed

lemma block_nat:
  fixes A X :: nat
  assumes "2 ^ k dvd A"
  shows "X div 2 ^ k = A div 2 ^ k \<longleftrightarrow> A \<le> X \<and> X < A + 2 ^ k"
proof -
  obtain q where q: "A = 2 ^ k * q" using assms by (auto elim: dvdE)
  have Aq: "A div 2 ^ k = q" unfolding q by simp
  show ?thesis
  proof
    assume "X div 2 ^ k = A div 2 ^ k"
    then have d: "X div 2 ^ k = q" using Aq by simp
    have "2 ^ k * (X div 2 ^ k) \<le> X" by simp
    moreover have "X < 2 ^ k * (X div 2 ^ k) + 2 ^ k"
      using mod_less_divisor [of "2 ^ k" X] mult_div_mod_eq [of "2 ^ k" X]
      by (metis add_less_cancel_left zero_less_numeral zero_less_power)
    ultimately show "A \<le> X \<and> X < A + 2 ^ k" unfolding d q by simp
  next
    assume r: "A \<le> X \<and> X < A + 2 ^ k"
    have "X div 2 ^ k = q"
    proof (rule div_nat_eqI)
      show "2 ^ k * q \<le> X" using r unfolding q by simp
      show "X < 2 ^ k * Suc q" using r unfolding q by simp
    qed
    then show "X div 2 ^ k = A div 2 ^ k" using Aq by simp
  qed
qed

lemma block_bits:
  fixes a x :: ulong
  assumes "unat x < 2 ^ 32" and "unat a < 2 ^ 32" and "2 ^ k dvd unat a"
  shows "(\<forall>i. int k - 1 < int i \<and> int i \<le> 31 \<longrightarrow> bit x i = bit a i) \<longleftrightarrow>
     unat a \<le> unat x \<and> unat x < unat a + 2 ^ k"
proof -
  have "(\<forall>i. int k - 1 < int i \<and> int i \<le> 31 \<longrightarrow> bit x i = bit a i) \<longleftrightarrow>
      (\<forall>i. k \<le> i \<longrightarrow> bit x i = bit a i)"
  proof
    assume L: "\<forall>i. int k - 1 < int i \<and> int i \<le> 31 \<longrightarrow> bit x i = bit a i"
    show "\<forall>i. k \<le> i \<longrightarrow> bit x i = bit a i"
    proof (intro allI impI)
      fix i assume i: "k \<le> i"
      show "bit x i = bit a i"
      proof (cases "i < 32")
        case True
        then show ?thesis using L i by simp
      next
        case False
        then show ?thesis
          using high_bits_zero [OF assms(1), of i] high_bits_zero [OF assms(2), of i] by simp
      qed
    qed
  next
    assume "\<forall>i. k \<le> i \<longrightarrow> bit x i = bit a i"
    then show "\<forall>i. int k - 1 < int i \<and> int i \<le> 31 \<longrightarrow> bit x i = bit a i" by simp
  qed
  also have "\<dots> \<longleftrightarrow> drop_bit k x = drop_bit k a"
  proof
    assume R: "\<forall>i. k \<le> i \<longrightarrow> bit x i = bit a i"
    show "drop_bit k x = drop_bit k a"
      by (rule bit_word_eqI) (simp add: bit_drop_bit_eq R)
  next
    assume E: "drop_bit k x = drop_bit k a"
    show "\<forall>i. k \<le> i \<longrightarrow> bit x i = bit a i"
    proof (intro allI impI)
      fix i assume "k \<le> i"
      then have "bit x i = bit (drop_bit k x) (i - k)" by (simp add: bit_drop_bit_eq)
      also have "\<dots> = bit (drop_bit k a) (i - k)" using E by simp
      also have "\<dots> = bit a i" using \<open>k \<le> i\<close> by (simp add: bit_drop_bit_eq)
      finally show "bit x i = bit a i" .
    qed
  qed
  also have "\<dots> \<longleftrightarrow> unat (drop_bit k x) = unat (drop_bit k a)"
    by (simp add: word_unat_eq_iff)
  also have "\<dots> \<longleftrightarrow> unat x div 2 ^ k = unat a div 2 ^ k"
    by (simp only: unat_drop_bit_eq) (simp add: drop_bit_eq_div)
  also have "\<dots> \<longleftrightarrow> unat a \<le> unat x \<and> unat x < unat a + 2 ^ k"
    by (rule block_nat [OF assms(3)])
  finally show ?thesis .
qed

lemma upto_done: "\<not> a1 \<le> a2 \<Longrightarrow> save_range_upto n a1 a2 rt = Some rt"
  by (cases n) simp_all

lemma upto_unfold:
  assumes "a1 \<le> a2" and "shrink a1 a2 ((a1 - 1) AND NOT a1) = Some (mask k)" and "k \<le> 32"
  shows "save_range_upto (Suc n) a1 a2 rt =
     save_range_upto n (a1 + 2 ^ k) a2 (add_to_node rt a1 31 (int k - 1))"
proof -
  have "count_bit (- 1) (mask k) = int k - 1"
    using assms(3) by (simp add: count_bit_mask)
  moreover have "(mask k :: ulong) + 1 = 2 ^ k"
    by (simp add: mask_eq_exp_minus_1)
  ultimately show ?thesis
    using assms(1,2) by simp
qed

lemma upto_mono:
  "save_range_upto n a1 a2 rt = Some r \<Longrightarrow> n \<le> n' \<Longrightarrow> save_range_upto n' a1 a2 rt = Some r"
proof (induction n arbitrary: n' a1 rt)
  case 0
  then have "\<not> a1 \<le> a2" "r = rt" by (auto split: if_splits)
  then show ?case by (simp add: upto_done)
next
  case (Suc n)
  then obtain m' where n': "n' = Suc m'" "n \<le> m'" by (cases n') auto
  show ?case
  proof (cases "a1 \<le> a2")
    case False
    then show ?thesis using Suc.prems(1) by (simp add: upto_done)
  next
    case True
    then obtain m where m: "shrink a1 a2 ((a1 - 1) AND NOT a1) = Some m"
      using Suc.prems(1) by (cases "shrink a1 a2 ((a1 - 1) AND NOT a1)") auto
    then have "save_range_upto n (a1 + (m + 1)) a2 (add_to_node rt a1 31 (count_bit (- 1) m)) = Some r"
      using Suc.prems(1) True by simp
    from Suc.IH [OF this n'(2)] show ?thesis
      using True m n'(1) by simp
  qed
qed

lemma upto_loop:
  "save_range_upto n a1 a2 rt = Some r \<Longrightarrow> save_range_loop a1 a2 rt = Some r"
proof (induction n arbitrary: a1 rt)
  case 0
  then have "\<not> a1 \<le> a2" "r = rt" by (auto split: if_splits)
  then show ?case by (subst save_range_loop.simps) simp
next
  case (Suc n)
  show ?case
  proof (cases "a1 \<le> a2")
    case False
    then show ?thesis using Suc.prems by (subst save_range_loop.simps) simp
  next
    case True
    then obtain m where m: "shrink a1 a2 ((a1 - 1) AND NOT a1) = Some m"
      using Suc.prems(1) by (cases "shrink a1 a2 ((a1 - 1) AND NOT a1)") auto
    then have "save_range_upto n (a1 + (m + 1)) a2 (add_to_node rt a1 31 (count_bit (- 1) m)) = Some r"
      using Suc.prems(1) True by simp
    from Suc.IH [OF this] show ?thesis
      using True m by (subst save_range_loop.simps) simp
  qed
qed

lemma dvd_next_exp:
  fixes A :: nat
  assumes "2 ^ k dvd A" and "\<not> 2 ^ Suc k dvd A"
  shows "2 ^ Suc k dvd A + 2 ^ k"
proof -
  obtain q where q: "A = 2 ^ k * q" using assms(1) by (auto elim: dvdE)
  have "odd q"
  proof
    assume "even q"
    then obtain p where "q = 2 * p" by (auto elim: evenE)
    then have "A = 2 ^ Suc k * p" unfolding q by simp
    then show False using assms(2) by simp
  qed
  then have "even (Suc q)" by simp
  then obtain p where p: "Suc q = 2 * p" by (elim evenE)
  have "A + 2 ^ k = 2 ^ k * Suc q" unfolding q by simp
  also have "\<dots> = 2 ^ Suc k * p" unfolding p by simp
  finally show ?thesis by simp
qed

lemma room_iff:
  fixes A B P :: nat
  assumes "0 < P"
  shows "B + 1 - (A + P) < P \<longleftrightarrow> \<not> A + 2 * P \<le> B + 1"
  using assms by arith

lemma tail_bound:
  assumes "unat a2 < 2 ^ 32"
  shows "2 ^ j dvd unat a1 \<Longrightarrow> unat a1 \<le> unat a2 + 1 \<Longrightarrow> unat a2 + 1 - unat a1 < 2 ^ j \<Longrightarrow>
     \<exists>r. save_range_upto j a1 a2 rt = Some r"
proof (induction j arbitrary: a1 rt rule: less_induct)
  case (less j)
  show ?case
  proof (cases "a1 \<le> a2")
    case False
    then show ?thesis by (simp add: upto_done)
  next
    case True
    from range_block [OF True assms] obtain k where k: "k \<le> 32"
      "shrink a1 a2 ((a1 - 1) AND NOT a1) = Some (mask k)"
      "2 ^ k dvd unat a1" "unat a1 + 2 ^ k \<le> unat a2 + 1"
      "\<forall>i. 2 ^ i dvd unat a1 \<and> unat a1 + 2 ^ i \<le> unat a2 + 1 \<longrightarrow> i \<le> k"
      by blast
    have "(2::nat) ^ k \<le> unat a2 + 1 - unat a1" using k(4) by linarith
    also have "\<dots> < 2 ^ j" by (rule less.prems(3))
    finally have kj: "k < j" by (rule power_less_imp_less_exp [rotated]) simp
    then obtain j' where j': "j = Suc j'" "k \<le> j'" by (cases j) auto
    let ?a = "a1 + 2 ^ k"
    have ua: "unat ?a = unat a1 + 2 ^ k"
      using unat_advance [OF k(4) assms k(1)] .
    have d: "2 ^ k dvd unat ?a" using k(3) unfolding ua by simp
    have le: "unat ?a \<le> unat a2 + 1" using k(4) unfolding ua .
    have small: "unat a2 + 1 - unat ?a < 2 ^ k"
    proof (rule ccontr)
      assume "\<not> unat a2 + 1 - unat ?a < 2 ^ k"
      then have "unat a1 + 2 ^ Suc k \<le> unat a2 + 1"
        unfolding ua using room_iff [of "2 ^ k" "unat a2" "unat a1"] by simp
      moreover have "2 ^ Suc k dvd unat a1"
        using less.prems(1) kj by (meson Suc_leI dvd_trans le_imp_power_dvd)
      ultimately have "Suc k \<le> k" using k(5) by blast
      then show False by simp
    qed
    from less.IH [OF kj d le small] obtain r where
      "save_range_upto k ?a a2 (add_to_node rt a1 31 (int k - 1)) = Some r" by blast
    then have "save_range_upto j' ?a a2 (add_to_node rt a1 31 (int k - 1)) = Some r"
      using j'(2) by (rule upto_mono)
    then show ?thesis
      unfolding j'(1) upto_unfold [OF True k(2) k(1)] by blast
  qed
qed

lemma head_bound:
  assumes "unat a2 < 2 ^ 32"
  shows "2 ^ t dvd unat a1 \<Longrightarrow> t \<le> 32 \<Longrightarrow> unat a1 \<le> unat a2 + 1 \<Longrightarrow>
     \<exists>r. save_range_upto (64 - t) a1 a2 rt = Some r"
proof (induction "32 - t" arbitrary: t a1 rt rule: less_induct)
  case less
  show ?case
  proof (cases "a1 \<le> a2")
    case False
    then show ?thesis by (simp add: upto_done)
  next
    case True
    from range_block [OF True assms] obtain k where k: "k \<le> 32"
      "shrink a1 a2 ((a1 - 1) AND NOT a1) = Some (mask k)"
      "2 ^ k dvd unat a1" "unat a1 + 2 ^ k \<le> unat a2 + 1"
      "\<forall>i. 2 ^ i dvd unat a1 \<and> unat a1 + 2 ^ i \<le> unat a2 + 1 \<longrightarrow> i \<le> k"
      by blast
    let ?a = "a1 + 2 ^ k"
    let ?rt = "add_to_node rt a1 31 (int k - 1)"
    have ua: "unat ?a = unat a1 + 2 ^ k"
      using unat_advance [OF k(4) assms k(1)] .
    have le: "unat ?a \<le> unat a2 + 1" using k(4) unfolding ua .
    show ?thesis
    proof (cases "unat a1 + 2 ^ Suc k \<le> unat a2 + 1")
      case room: True
      have nd: "\<not> 2 ^ Suc k dvd unat a1"
      proof
        assume "2 ^ Suc k dvd unat a1"
        with room k(5) have "Suc k \<le> k" by blast
        then show False by simp
      qed
      have tk: "t \<le> k"
      proof (rule ccontr)
        assume "\<not> t \<le> k"
        then have "Suc k \<le> t" by simp
        then have "(2::nat) ^ Suc k dvd 2 ^ t" by (rule le_imp_power_dvd)
        then show False using nd less.prems(1) dvd_trans by blast
      qed
      have "(2::nat) ^ Suc k \<le> 2 ^ 32" using room assms by simp
      then have k1: "Suc k \<le> 32" by (rule exp_le_2p32)
      have d: "2 ^ Suc k dvd unat ?a"
        unfolding ua using k(3) nd by (rule dvd_next_exp)
      have "32 - Suc k < 32 - t" using tk k1 by simp
      from less.hyps [OF this d k1 le] obtain r where
        "save_range_upto (64 - Suc k) ?a a2 ?rt = Some r" by blast
      moreover have "64 - k = Suc (64 - Suc k)" using k1 by simp
      ultimately have "save_range_upto (64 - k) a1 a2 rt = Some r"
        using upto_unfold [OF True k(2) k(1), of "64 - Suc k" rt] by simp
      moreover have "64 - k \<le> 64 - t" using tk by simp
      ultimately show ?thesis using upto_mono by blast
    next
      case tight: False
      show ?thesis
      proof (cases "k = 32")
        case k32: True
        have "unat a2 + 1 \<le> 2 ^ 32" using assms by simp
        then have "\<not> ?a \<le> a2"
          using k(4) ua k32 by (simp add: word_le_nat_alt)
        then have "save_range_upto 0 ?a a2 ?rt = Some ?rt" by (simp add: upto_done)
        then have "save_range_upto (Suc 0) a1 a2 rt = Some ?rt"
          using upto_unfold [OF True k(2) k(1), of 0 rt] by simp
        moreover have "Suc 0 \<le> 64 - t" using less.prems(2) by simp
        ultimately show ?thesis using upto_mono by blast
      next
        case False
        then have k31: "Suc k \<le> 64 - t" using k(1) less.prems(2) by simp
        have d: "2 ^ k dvd unat ?a" using k(3) unfolding ua by simp
        have small: "unat a2 + 1 - unat ?a < 2 ^ k"
          using tight unfolding ua using room_iff [of "2 ^ k" "unat a2" "unat a1"] by simp
        from tail_bound [OF assms d le small] obtain r where
          "save_range_upto k ?a a2 ?rt = Some r" by blast
        then have "save_range_upto (Suc k) a1 a2 rt = Some r"
          using upto_unfold [OF True k(2) k(1), of k rt] by simp
        then show ?thesis using k31 upto_mono by blast
      qed
    qed
  qed
qed

lemma save_range_upto_64:
  assumes "a1 \<le> a2" and "unat a2 < 2 ^ 32"
  shows "\<exists>r. save_range_upto 64 a1 a2 rt = Some r"
proof -
  have "unat a1 \<le> unat a2 + 1" using assms(1) by (simp add: word_le_nat_alt)
  from head_bound [OF assms(2), of 0 a1 rt] this show ?thesis by simp
qed

lemma ulong_less_2p32: "(x :: ulong) < 2 ^ 32 \<longleftrightarrow> unat x < 2 ^ 32"
  by (simp add: word_less_nat_alt)

lemma save_range_upto_adds:
  assumes "unat a2 < 2 ^ 32"
  shows "save_range_upto n a1 a2 rt = Some r \<Longrightarrow> unat x < 2 ^ 32 \<Longrightarrow>
     holds r x 31 \<longleftrightarrow> holds rt x 31 \<or> (a1 \<le> x \<and> x \<le> a2)"
proof (induction n arbitrary: a1 rt)
  case 0
  then have "\<not> a1 \<le> a2" "r = rt" by (auto split: if_splits)
  then show ?case by auto
next
  case (Suc n)
  show ?case
  proof (cases "a1 \<le> a2")
    case False
    then have "r = rt" using Suc.prems(1) by simp
    then show ?thesis using False by auto
  next
    case True
    from range_block [OF True assms] obtain k where k: "k \<le> 32"
      "shrink a1 a2 ((a1 - 1) AND NOT a1) = Some (mask k)"
      "2 ^ k dvd unat a1" "unat a1 + 2 ^ k \<le> unat a2 + 1"
      by blast
    let ?a = "a1 + 2 ^ k"
    let ?rt = "add_to_node rt a1 31 (int k - 1)"
    have ua: "unat ?a = unat a1 + 2 ^ k"
      using unat_advance [OF k(4) assms k(1)] .
    have a32: "unat a1 < 2 ^ 32"
      using True assms by (simp add: word_le_nat_alt)
    have e: "- 1 \<le> int k - 1" "int k - 1 \<le> 31" using k(1) by auto
    have run: "save_range_upto n ?a a2 ?rt = Some r"
      using Suc.prems(1) unfolding upto_unfold [OF True k(2) k(1)] .
    have "holds r x 31 \<longleftrightarrow> holds ?rt x 31 \<or> (?a \<le> x \<and> x \<le> a2)"
      using Suc.IH [OF run Suc.prems(2)] .
    also have "holds ?rt x 31 \<longleftrightarrow>
        holds rt x 31 \<or> (unat a1 \<le> unat x \<and> unat x < unat a1 + 2 ^ k)"
      unfolding holds_add_to_node [OF e] block_bits [OF Suc.prems(2) a32 k(3)] ..
    finally show ?thesis
      using k(4) by (auto simp: word_le_nat_alt ua)
  qed
qed

lemma save_range_upto_fits:
  "save_range_upto n a1 a2 rt = Some r \<Longrightarrow> unat a2 < 2 ^ 32 \<Longrightarrow> fits rt 31 \<Longrightarrow> fits r 31"
proof (induction n arbitrary: a1 rt)
  case 0
  then show ?case by (auto split: if_splits)
next
  case (Suc n)
  show ?case
  proof (cases "a1 \<le> a2")
    case False
    then show ?thesis using Suc.prems by simp
  next
    case True
    from range_block [OF True Suc.prems(2)] obtain k where k: "k \<le> 32"
      "shrink a1 a2 ((a1 - 1) AND NOT a1) = Some (mask k)"
      by blast
    have "fits (add_to_node rt a1 31 (int k - 1)) 31"
      using Suc.prems(3) by (rule fits_add_to_node) simp
    moreover have "save_range_upto n (a1 + 2 ^ k) a2 (add_to_node rt a1 31 (int k - 1)) = Some r"
      using Suc.prems(1) unfolding upto_unfold [OF True k(2) k(1)] .
    ultimately show ?thesis using Suc.IH Suc.prems(2) by blast
  qed
qed

lemma save_range_loop_canonical:
  assumes "save_range_loop a1 a2 rt = Some r"
  shows "canonical rt \<longrightarrow> canonical r"
proof (rule save_range_loop.raw_induct
    [where P = "\<lambda>a1 a2 rt r. canonical rt \<longrightarrow> canonical r", OF _ assms])
  fix f a1 a2 rt r
  assume IH: "\<And>a1 a2 rt r. f a1 a2 rt = Some r \<Longrightarrow> canonical rt \<longrightarrow> canonical r"
    and body: "(if a1 \<le> a2 then
        Option.bind (shrink a1 a2 ((a1 - 1) AND NOT a1))
          (\<lambda>m. f (a1 + (m + 1)) a2 (add_to_node rt a1 31 (count_bit (- 1) m)))
      else Some rt) = Some r"
  show "canonical rt \<longrightarrow> canonical r"
  proof (cases "a1 \<le> a2")
    case False
    then show ?thesis using body by simp
  next
    case True
    then obtain m where "f (a1 + (m + 1)) a2 (add_to_node rt a1 31 (count_bit (- 1) m)) = Some r"
      using body by (auto simp: bind_eq_Some_conv)
    from IH [OF this] show ?thesis by (simp add: canonical_add_to_node)
  qed
qed

text \<open>
  C6. For \<open>lo \<le> hi\<close> below \<open>2 ^ 32\<close>, \<^verbatim>\<open>save_range(lo, hi)\<close> returns after at most
  64 turns of its outer loop, having added the addresses from \<open>lo\<close> to \<open>hi\<close>. In a
  turn that starts at \<open>a1\<close>, the inner loops find the largest \<open>k\<close> such that \<open>2 ^ k\<close>
  divides \<open>a1\<close> and the block of \<open>2 ^ k\<close> addresses at \<open>a1\<close> ends at or before \<open>hi\<close>;
  the turn adds exactly that block and moves \<open>a1\<close> forward by \<open>2 ^ k\<close>, at least 1.
\<close>

theorem save_range_within_64_turns:
  assumes "lo \<le> hi" and "hi < 2 ^ 32"
  shows "(\<exists>r. save_range_upto 64 lo hi rt = Some r \<and> save_range lo hi rt = Some (r, []) \<and>
       (\<forall>x. x < 2 ^ 32 \<longrightarrow> (holds r x 31 \<longleftrightarrow> holds rt x 31 \<or> (lo \<le> x \<and> x \<le> hi)))) \<and>
     (\<forall>a1. lo \<le> a1 \<and> a1 \<le> hi \<longrightarrow>
       (\<exists>k \<le> 32. shrink a1 hi ((a1 - 1) AND NOT a1) = Some (mask k) \<and>
          count_bit (- 1) (mask k) = int k - 1 \<and>
          2 ^ k dvd unat a1 \<and> unat a1 + 2 ^ k \<le> unat hi + 1 \<and>
          (\<forall>i. 2 ^ i dvd unat a1 \<and> unat a1 + 2 ^ i \<le> unat hi + 1 \<longrightarrow> i \<le> k) \<and>
          unat (a1 + (mask k + 1)) = unat a1 + 2 ^ k \<and>
          (\<forall>t. save_range_loop a1 hi t =
               save_range_loop (a1 + (mask k + 1)) hi (add_to_node t a1 31 (int k - 1))) \<and>
          (\<forall>t x. x < 2 ^ 32 \<longrightarrow>
             (holds (add_to_node t a1 31 (int k - 1)) x 31 \<longleftrightarrow>
              holds t x 31 \<or> (unat a1 \<le> unat x \<and> unat x < unat a1 + 2 ^ k)))))"
proof (intro conjI allI impI)
  have hi: "unat hi < 2 ^ 32" using assms(2) by (simp only: ulong_less_2p32)
  from save_range_upto_64 [OF assms(1) hi] obtain r where
    r: "save_range_upto 64 lo hi rt = Some r" by blast
  then have "save_range_loop lo hi rt = Some r" by (rule upto_loop)
  then have "save_range lo hi rt = Some (r, [])"
    using assms(1) by (simp add: save_range_def)
  moreover have "\<forall>x. x < 2 ^ 32 \<longrightarrow> (holds r x 31 \<longleftrightarrow> holds rt x 31 \<or> (lo \<le> x \<and> x \<le> hi))"
    using save_range_upto_adds [OF hi r] by (simp only: ulong_less_2p32) blast
  ultimately show "\<exists>r. save_range_upto 64 lo hi rt = Some r \<and>
      save_range lo hi rt = Some (r, []) \<and>
      (\<forall>x. x < 2 ^ 32 \<longrightarrow> (holds r x 31 \<longleftrightarrow> holds rt x 31 \<or> (lo \<le> x \<and> x \<le> hi)))"
    using r by blast
next
  fix a1 assume a1: "lo \<le> a1 \<and> a1 \<le> hi"
  have hi: "unat hi < 2 ^ 32" using assms(2) by (simp only: ulong_less_2p32)
  have le: "a1 \<le> hi" using a1 by simp
  from range_block [OF le hi] obtain k where k: "k \<le> 32"
    "shrink a1 hi ((a1 - 1) AND NOT a1) = Some (mask k)"
    "2 ^ k dvd unat a1" "unat a1 + 2 ^ k \<le> unat hi + 1"
    "\<forall>i. 2 ^ i dvd unat a1 \<and> unat a1 + 2 ^ i \<le> unat hi + 1 \<longrightarrow> i \<le> k"
    by blast
  have m: "(mask k :: ulong) + 1 = 2 ^ k" by (simp add: mask_eq_exp_minus_1)
  have a32: "unat a1 < 2 ^ 32"
    using le hi by (simp add: word_le_nat_alt)
  have e: "- 1 \<le> int k - 1" "int k - 1 \<le> 31" using k(1) by auto
  have c: "count_bit (- 1) (mask k) = int k - 1"
    using k(1) by (simp add: count_bit_mask)
  have u: "unat (a1 + (mask k + 1)) = unat a1 + 2 ^ k"
    unfolding m using unat_advance [OF k(4) hi k(1)] .
  have l: "\<forall>t. save_range_loop a1 hi t =
      save_range_loop (a1 + (mask k + 1)) hi (add_to_node t a1 31 (int k - 1))"
    unfolding m using loop_unfold [OF le k(2) k(1)] by blast
  have h: "\<forall>t x. x < 2 ^ 32 \<longrightarrow>
      (holds (add_to_node t a1 31 (int k - 1)) x 31 \<longleftrightarrow>
       holds t x 31 \<or> (unat a1 \<le> unat x \<and> unat x < unat a1 + 2 ^ k))"
  proof (intro allI impI)
    fix t x assume "(x :: ulong) < 2 ^ 32"
    then have x: "unat x < 2 ^ 32" by (simp only: ulong_less_2p32)
    show "holds (add_to_node t a1 31 (int k - 1)) x 31 \<longleftrightarrow>
       holds t x 31 \<or> (unat a1 \<le> unat x \<and> unat x < unat a1 + 2 ^ k)"
      unfolding holds_add_to_node [OF e] block_bits [OF x a32 k(3)] ..
  qed
  show "\<exists>k \<le> 32. shrink a1 hi ((a1 - 1) AND NOT a1) = Some (mask k) \<and>
          count_bit (- 1) (mask k) = int k - 1 \<and>
          2 ^ k dvd unat a1 \<and> unat a1 + 2 ^ k \<le> unat hi + 1 \<and>
          (\<forall>i. 2 ^ i dvd unat a1 \<and> unat a1 + 2 ^ i \<le> unat hi + 1 \<longrightarrow> i \<le> k) \<and>
          unat (a1 + (mask k + 1)) = unat a1 + 2 ^ k \<and>
          (\<forall>t. save_range_loop a1 hi t =
               save_range_loop (a1 + (mask k + 1)) hi (add_to_node t a1 31 (int k - 1))) \<and>
          (\<forall>t x. x < 2 ^ 32 \<longrightarrow>
             (holds (add_to_node t a1 31 (int k - 1)) x 31 \<longleftrightarrow>
              holds t x 31 \<or> (unat a1 \<le> unat x \<and> unat x < unat a1 + 2 ^ k)))"
    using k(1,2,3,4,5) c u l h by blast
qed

theorem save_range_within_64_turns_witness:
  "(0x0A000000 :: ulong) \<le> 0x0A000005 \<and> (0x0A000005 :: ulong) < 2 ^ 32 \<and>
   (\<exists>r. save_range_upto 64 0x0A000000 0x0A000005 NONE = Some r \<and>
        save_range 0x0A000000 0x0A000005 NONE = Some (r, []) \<and>
        (holds r 0x0A000005 31 \<longleftrightarrow> True) \<and> (holds r 0x0A000006 31 \<longleftrightarrow> False)) \<and>
   shrink 0x0A000000 0x0A000005 ((0x0A000000 - 1) AND NOT 0x0A000000) = Some (mask 2) \<and>
   shrink 0x0A000004 0x0A000005 ((0x0A000004 - 1) AND NOT 0x0A000004) = Some (mask 1)"
proof -
  have h: "(0x0A000000 :: ulong) \<le> 0x0A000005" "(0x0A000005 :: ulong) < 2 ^ 32"
    by simp_all
  have s: "shrink 0x0A000000 0x0A000005 ((0x0A000000 - 1) AND NOT 0x0A000000) = Some (mask 2)"
    "shrink 0x0A000004 0x0A000005 ((0x0A000004 - 1) AND NOT 0x0A000004) = Some (mask 1)"
    by code_simp+
  from save_range_within_64_turns [OF h, of NONE] obtain r where
    r: "save_range_upto 64 0x0A000000 0x0A000005 NONE = Some r"
    "save_range 0x0A000000 0x0A000005 NONE = Some (r, [])"
    "\<forall>x. x < 2 ^ 32 \<longrightarrow> (holds r x 31 \<longleftrightarrow> holds NONE x 31 \<or> (0x0A000000 \<le> x \<and> x \<le> 0x0A000005))"
    by blast
  have "holds r 0x0A000005 31" "\<not> holds r 0x0A000006 31"
    using r(3) by simp_all
  then show ?thesis using h s r(1,2) by blast
qed

subsection \<open>Invariants of the run\<close>

lemma bit_small_int:
  assumes "0 \<le> n" and "n < 2 ^ m" and "m \<le> i"
  shows "\<not> bit (n :: int) i"
proof -
  have "(2::int) ^ m \<le> 2 ^ i" using assms(3) by (intro power_increasing) simp_all
  with assms(2) have "n < 2 ^ i" by (rule less_le_trans)
  then have "n div 2 ^ i = 0" using assms(1) by simp
  then show ?thesis by (simp add: bit_iff_odd)
qed

lemma small_iff_bits:
  assumes "m < 64"
  shows "unat (x :: ulong) < 2 ^ m \<longleftrightarrow> (\<forall>i. bit x i \<longrightarrow> i < m)"
proof
  assume "unat x < 2 ^ m"
  then have "x < 2 ^ m"
    using assms by (simp add: word_less_nat_alt unat_exp_ulong)
  then have e: "x AND mask m = x" by (rule less_mask_eq)
  show "\<forall>i. bit x i \<longrightarrow> i < m"
  proof (intro allI impI)
    fix i assume "bit x i"
    then have "bit (x AND mask m) i" using e by simp
    then show "i < m" by (simp add: bit_and_iff bit_mask_iff)
  qed
next
  assume b: "\<forall>i. bit x i \<longrightarrow> i < m"
  have "x AND mask m = x"
    by (rule bit_word_eqI) (use b in \<open>auto simp: bit_and_iff bit_mask_iff\<close>)
  moreover have "x AND mask m < 2 ^ m"
    using assms by (intro and_mask_less') simp
  ultimately have "x < 2 ^ m" by simp
  then show "unat x < 2 ^ m"
    using assms by (simp add: word_less_nat_alt unat_exp_ulong)
qed

lemma shift_in_bound:
  assumes "unat a < 2 ^ m" and "0 \<le> n" and "n \<le> 255" and "m + 8 < 64"
  shows "unat (shift_in a n) < 2 ^ (m + 8)"
proof -
  have m: "m < 64" using assms(4) by simp
  have a: "\<forall>i. bit a i \<longrightarrow> i < m"
    using assms(1) small_iff_bits [OF m] by blast
  have n: "\<not> bit n i" if "8 \<le> i" for i
    using assms(2,3) that by (intro bit_small_int [of n 8 i]) auto
  have "\<forall>i. bit (shift_in a n) i \<longrightarrow> i < m + 8"
  proof (intro allI impI)
    fix i assume "bit (shift_in a n) i"
    then consider "8 \<le> i" "bit a (i - 8)" | "bit n i"
      by (auto simp: shift_in_def bit_or_iff bit_push_bit_iff bit_word_of_int_iff)
    then show "i < m + 8"
    proof cases
      case 1
      then show ?thesis using a by fastforce
    next
      case 2
      then have "i < 8" using n [of i] by (cases "8 \<le> i") auto
      then show ?thesis by simp
    qed
  qed
  then show ?thesis using small_iff_bits [OF assms(4)] by blast
qed

lemma shift_in_first: "0 \<le> n \<Longrightarrow> n \<le> 255 \<Longrightarrow> unat (shift_in 0 n) < 256"
  using shift_in_bound [of 0 0 n] by simp

lemma shift_in_second:
  "unat a < 256 \<Longrightarrow> 0 \<le> n \<Longrightarrow> n \<le> 255 \<Longrightarrow> unat (shift_in a n) < 65536"
  using shift_in_bound [of a 8 n] by simp

lemma shift_in_third:
  "unat a < 65536 \<Longrightarrow> 0 \<le> n \<Longrightarrow> n \<le> 255 \<Longrightarrow> unat (shift_in a n) < 16777216"
  using shift_in_bound [of a 16 n] by simp

lemma shift_in_fourth:
  "unat a < 16777216 \<Longrightarrow> 0 \<le> n \<Longrightarrow> n \<le> 255 \<Longrightarrow> unat (shift_in a n) < 4294967296"
  using shift_in_bound [of a 24 n] by simp

lemma tree_ok_one:
  assumes "tree_ok rt cs" and "unat a < 2 ^ 32"
  shows "tree_ok (save_one_addr a rt) (cs @ [Save_one_addr a])"
proof -
  have e: "- 1 \<le> (- 1 :: int)" "(- 1 :: int) \<le> 31" by simp_all
  have a: "a < 2 ^ 32" using assms(2) by (simp only: ulong_less_2p32)
  have h: "holds (save_one_addr a rt) x 31 \<longleftrightarrow> holds rt x 31 \<or> x = a" if "x < 2 ^ 32" for x
  proof -
    have x: "unat x < 2 ^ 32" using that by (simp only: ulong_less_2p32)
    have "(\<forall>i. int 0 - 1 < int i \<and> int i \<le> 31 \<longrightarrow> bit x i = bit a i) \<longleftrightarrow>
        unat a \<le> unat x \<and> unat x < unat a + 2 ^ 0"
      by (rule block_bits [OF x assms(2)]) simp
    then have "(\<forall>i. - 1 < int i \<and> int i \<le> 31 \<longrightarrow> bit x i = bit a i) \<longleftrightarrow> x = a"
      by (auto simp: word_unat_eq_iff)
    then show ?thesis
      unfolding save_one_addr_def holds_add_to_node [OF e] by simp
  qed
  show ?thesis
    using assms(1) a h
    by (auto simp: tree_ok_def save_one_addr_def fits_add_to_node canonical_add_to_node)
qed

lemma tree_ok_cidr:
  assumes "tree_ok rt cs" and "0 \<le> w" and "w \<le> 32"
  shows "tree_ok (save_cidr a w rt) (cs @ [Save_cidr a w])"
proof -
  have e: "- 1 \<le> 31 - w" "31 - w \<le> 31" using assms(2,3) by simp_all
  have h: "holds (save_cidr a w rt) x 31 \<longleftrightarrow> holds rt x 31 \<or> in_block x (a, w)"
    if x: "x < 2 ^ 32" for x
  proof -
    have "(\<forall>i. 31 - w < int i \<and> int i \<le> 31 \<longrightarrow> bit x i = bit (cidr_base a w) i) \<longleftrightarrow>
        (\<forall>i. nat (32 - w) \<le> i \<and> i < 32 \<longrightarrow> bit x i = bit a i)"
    proof -
      have "31 - w < int i \<and> int i \<le> 31 \<longleftrightarrow> nat (32 - w) \<le> i \<and> i < 32" for i
        using assms(2,3) by auto
      moreover have "bit (cidr_base a w) i = bit a i" if "nat (32 - w) \<le> i \<and> i < 32" for i
        using that bit_cidr_base [OF assms(2,3), of a i] by simp
      ultimately show ?thesis by auto
    qed
    then show ?thesis
      unfolding save_cidr_def holds_add_to_node [OF e] using x by (simp add: in_block_def)
  qed
  have "x < 2 ^ 32" if "in_block x (a, w)" for x
    using that by (simp add: in_block_def)
  then show ?thesis
    using assms(1) h
    by (auto simp: tree_ok_def save_cidr_def fits_add_to_node canonical_add_to_node e)
qed

lemma tree_ok_range:
  assumes "tree_ok rt cs" and "unat hi < 2 ^ 32"
  shows "\<exists>r ds. save_range lo hi rt = Some (r, ds) \<and> tree_ok r (cs @ [Save_range lo hi])"
proof (cases "lo \<le> hi")
  case False
  then have "save_range lo hi rt = Some (rt, [Range_reversed])"
    by (simp add: save_range_def)
  moreover have "tree_ok rt (cs @ [Save_range lo hi])"
    using assms(1) False by (auto simp: tree_ok_def)
  ultimately show ?thesis by blast
next
  case True
  from save_range_upto_64 [OF True assms(2)] obtain r where
    r: "save_range_upto 64 lo hi rt = Some r" by blast
  then have l: "save_range_loop lo hi rt = Some r" by (rule upto_loop)
  then have s: "save_range lo hi rt = Some (r, [])"
    using True by (simp add: save_range_def)
  have f: "fits r 31"
    using save_range_upto_fits [OF r assms(2)] assms(1) by (simp add: tree_ok_def)
  have c: "canonical r"
    using save_range_loop_canonical [OF l] assms(1) by (simp add: tree_ok_def)
  have h: "holds r x 31 \<longleftrightarrow> holds rt x 31 \<or> (lo \<le> x \<and> x \<le> hi)" if "x < 2 ^ 32" for x
  proof -
    have "unat x < 2 ^ 32" using that by (simp only: ulong_less_2p32)
    then show ?thesis by (rule save_range_upto_adds [OF assms(2) r])
  qed
  have b: "x < 2 ^ 32" if "lo \<le> x \<and> x \<le> hi" for x
  proof -
    have "unat x \<le> unat hi" using that by (simp add: word_le_nat_alt)
    then have "unat x < 2 ^ 32" using assms(2) by simp
    then show ?thesis by (simp only: ulong_less_2p32)
  qed
  have "tree_ok r (cs @ [Save_range lo hi])"
    using assms(1) f c h b by (auto simp: tree_ok_def)
  then show ?thesis using s by blast
qed

lemma state_cases:
  fixes st :: int
  obtains "st = 1" | "st = 2" | "st = 3" | "st = 4" | "st = 5" | "st = 6" | "st = 7"
    | "st = 8" | "st = 9" | "st = 10" | "st = 11" | "st = 12" | "st = 13" | "st = 14"
    | "st = 15" | "st = 16" | "st = 17" | "st = 18" | "st = 19" | "st < 1 \<or> 19 < st"
proof -
  have "st = 1 \<or> st = 2 \<or> st = 3 \<or> st = 4 \<or> st = 5 \<or> st = 6 \<or> st = 7 \<or> st = 8 \<or> st = 9 \<or>
    st = 10 \<or> st = 11 \<or> st = 12 \<or> st = 13 \<or> st = 14 \<or> st = 15 \<or> st = 16 \<or> st = 17 \<or>
    st = 18 \<or> st = 19 \<or> (st < 1 \<or> 19 < st)"
    by arith
  then show thesis
    using that by (elim disjE) blast+
qed

lemma tree_ok_range_result:
  assumes "tree_ok rt cs" and "unat hi < 2 ^ 32" and "save_range lo hi rt = Some (r, ds)"
  shows "tree_ok r (cs @ [Save_range lo hi])"
  using tree_ok_range [OF assms(1,2), of lo] assms(3) by auto

lemma do_save_range_returns:
  assumes "tree_ok (g_root s) (calls s)" and "unat hi < 2 ^ 32"
  shows "\<exists>r ds. do_save_range lo hi s =
     Inr (s\<lparr>g_root := r, g_stderr := g_stderr s @ ds, calls := calls s @ [Save_range lo hi]\<rparr>) \<and>
     tree_ok r (calls s @ [Save_range lo hi])"
proof -
  from tree_ok_range [OF assms, of lo] obtain r ds where
    "save_range lo hi (g_root s) = Some (r, ds)" "tree_ok r (calls s @ [Save_range lo hi])"
    by blast
  then show ?thesis by (intro exI [of _ r] exI [of _ ds]) (simp add: do_save_range_def)
qed

lemma inv_on_digit:
  assumes "run_inv s" and "0 \<le> d" and "d \<le> 9" and "on_digit s d = Inr s'"
  shows "run_inv s'"
  using assms
  by (cases "p_state s" rule: state_cases;
      clarsimp simp: run_inv_def on_digit_def bounded_def Let_def complain_def do_save_one_addr_def
        tree_ok_one split: if_splits)

lemma inv_on_dot:
  assumes "run_inv s" and "on_dot s = Inr s'"
  shows "run_inv s'"
  using assms
  by (cases "p_state s" rule: state_cases;
      clarsimp simp: run_inv_def on_dot_def bounded_def Let_def complain_def do_save_one_addr_def
        tree_ok_one shift_in_first shift_in_second shift_in_third split: if_splits)

lemma inv_on_other:
  assumes "run_inv s" and "on_other s c = Inr s'"
  shows "run_inv s'"
  using assms by (clarsimp simp: run_inv_def on_other_def bounded_def complain_def)

lemma inv_on_dash:
  assumes "run_inv s" and "on_dash s = Inr s'"
  shows "run_inv s'"
  using assms
  by (cases "p_state s" rule: state_cases;
      clarsimp simp: run_inv_def on_dash_def bounded_def complain_def shift_in_fourth)

lemma inv_on_slash:
  assumes "run_inv s" and "on_slash s = Inr s'"
  shows "run_inv s'"
  using assms
  by (cases "p_state s" rule: state_cases;
      clarsimp simp: run_inv_def on_slash_def bounded_def complain_def shift_in_fourth)

lemma inv_on_space:
  assumes "run_inv s" and "on_space s = Inr s'"
  shows "run_inv s'"
proof (cases "p_state s = 17 \<and> 0 \<le> p_n s")
  case True
  have t: "tree_ok (g_root s) (calls s)" and b: "bounded s"
    using assms(1) by (simp_all add: run_inv_def)
  have "unat (shift_in (p_a s) (p_n s)) < 4294967296"
    using True b by (intro shift_in_fourth) (simp_all add: bounded_def)
  then have "unat (shift_in (p_a s) (p_n s)) < 2 ^ 32" by simp
  from do_save_range_returns [OF t this, of "p_a1 s"] obtain r ds where
    r: "do_save_range (p_a1 s) (shift_in (p_a s) (p_n s)) s =
        Inr (s\<lparr>g_root := r, g_stderr := g_stderr s @ ds,
              calls := calls s @ [Save_range (p_a1 s) (shift_in (p_a s) (p_n s))]\<rparr>)"
      "tree_ok r (calls s @ [Save_range (p_a1 s) (shift_in (p_a s) (p_n s))])"
    by blast
  show ?thesis
    using assms(2) True r b by (clarsimp simp: on_space_def run_inv_def bounded_def)
next
  case False
  then show ?thesis
    using assms
    by (cases "p_state s" rule: state_cases;
        clarsimp simp: run_inv_def on_space_def bounded_def complain_def do_save_cidr_def
          shift_in_fourth tree_ok_cidr)
qed

lemma inv_step:
  assumes "run_inv s" and "step s c = Inr s'"
  shows "run_inv s'"
proof -
  have l: "run_inv (s\<lparr>p_line := p_line s + 1\<rparr>)"
    using assms(1) by (simp add: run_inv_def bounded_def)
  consider "c \<in> set ''0123456789''" "on_digit s (digit_val c) = Inr s'"
    | "on_dot s = Inr s'" | "on_dash s = Inr s'" | "on_slash s = Inr s'"
    | "on_space (s\<lparr>p_line := p_line s + 1\<rparr>) = Inr s'" | "on_space s = Inr s'"
    | "on_other s c = Inr s'"
    using assms(2) unfolding step_def by (auto split: if_splits)
  then show ?thesis
  proof cases
    case 1
    then show ?thesis
      using digit_val_range [OF 1(1)] inv_on_digit [OF assms(1)] by blast
  next
    case 2
    then show ?thesis using inv_on_dot [OF assms(1)] by blast
  next
    case 3
    then show ?thesis using inv_on_dash [OF assms(1)] by blast
  next
    case 4
    then show ?thesis using inv_on_slash [OF assms(1)] by blast
  next
    case 5
    then show ?thesis using inv_on_space [OF l] by blast
  next
    case 6
    then show ?thesis using inv_on_space [OF assms(1)] by blast
  next
    case 7
    then show ?thesis using inv_on_other [OF assms(1)] by blast
  qed
qed

lemma inv_steps: "run_inv s \<Longrightarrow> steps s cs = Inr s' \<Longrightarrow> run_inv s'"
proof (induction cs arbitrary: s)
  case Nil
  then show ?case by simp
next
  case (Cons c cs)
  then obtain s1 where s1: "step s c = Inr s1" "steps s1 cs = Inr s'"
    by (auto split: sum.splits)
  from Cons.IH [OF inv_step [OF Cons.prems(1) s1(1)] s1(2)] show ?case .
qed

lemma inv_init: "run_inv (init_state a0 a10)"
  by (simp add: run_inv_def bounded_def tree_ok_def init_state_def)

lemma tree_ok_at_eof:
  assumes "run_inv s" and "at_eof s = Inr s'"
  shows "tree_ok (g_root s') (calls s')"
proof (cases "p_state s = 17 \<and> 0 \<le> p_n s")
  case True
  have t: "tree_ok (g_root s) (calls s)" and b: "bounded s"
    using assms(1) by (simp_all add: run_inv_def)
  have "unat (shift_in (p_a s) (p_n s)) < 4294967296"
    using True b by (intro shift_in_fourth) (simp_all add: bounded_def)
  then have "unat (shift_in (p_a s) (p_n s)) < 2 ^ 32" by simp
  from do_save_range_returns [OF t this, of "p_a1 s"] obtain r ds where
    r: "do_save_range (p_a1 s) (shift_in (p_a s) (p_n s)) s =
        Inr (s\<lparr>g_root := r, g_stderr := g_stderr s @ ds,
              calls := calls s @ [Save_range (p_a1 s) (shift_in (p_a s) (p_n s))]\<rparr>)"
      "tree_ok r (calls s @ [Save_range (p_a1 s) (shift_in (p_a s) (p_n s))])"
    by blast
  show ?thesis
    using assms(2) True r by (clarsimp simp: at_eof_def)
next
  case False
  then show ?thesis
    using assms
    by (cases "p_state s" rule: state_cases;
        clarsimp simp: run_inv_def at_eof_def bounded_def complain_def do_save_one_addr_def
          shift_in_fourth tree_ok_one)
qed

lemma tree_ok_read_input:
  assumes "read_input a0 a10 cs = Inr s"
  shows "tree_ok (g_root s) (calls s)"
proof -
  from assms obtain s1 where s1: "steps (init_state a0 a10) cs = Inr s1" "at_eof s1 = Inr s"
    by (auto simp: read_input_def read_input_from_def split: sum.splits)
  from tree_ok_at_eof [OF inv_steps [OF inv_init s1(1)] s1(2)] show ?thesis .
qed

subsection \<open>What is printed\<close>

lemma filter_twice:
  assumes "i < j" and "j < length xs" and "P (xs ! i)" and "P (xs ! j)"
  shows "2 \<le> length (filter P xs)"
proof -
  have xs: "xs = take j xs @ drop j xs" by simp
  have "xs ! i \<in> set (take j xs)"
    using assms(1,2) by (metis in_set_conv_nth length_take min.absorb2 less_imp_le nth_take)
  then have "filter P (take j xs) \<noteq> []"
    using assms(3) by (auto simp: filter_empty_conv)
  then have a: "1 \<le> length (filter P (take j xs))"
    by (cases "filter P (take j xs)") auto
  have "xs ! j \<in> set (drop j xs)"
    using assms(2) by (metis Cons_nth_drop_Suc list.set_intros(1))
  then have "filter P (drop j xs) \<noteq> []"
    using assms(4) by (auto simp: filter_empty_conv)
  then have b: "1 \<le> length (filter P (drop j xs))"
    by (cases "filter P (drop j xs)") auto
  have "length (filter P xs) = length (filter P (take j xs)) + length (filter P (drop j xs))"
    by (subst xs) (simp only: filter_append length_append)
  then show ?thesis using a b by simp
qed

lemma dump_root:
  assumes "fits rt 31"
  shows "\<exists>blocks. dump_tree rt 0 31 = Some blocks \<and>
     (\<forall>x. length (filter (in_block x) blocks) = (if x < 2 ^ 32 \<and> holds rt x 31 then 1 else 0))"
proof -
  have z: "\<forall>i. int i \<le> 31 \<longrightarrow> \<not> bit (0 :: ulong) i" by simp
  from dump_tree_shape [OF assms _ _ z] obtain blocks where
    b: "dump_tree rt 0 31 = Some blocks" by auto
  have "length (filter (in_block x) blocks) = (if x < 2 ^ 32 \<and> holds rt x 31 then 1 else 0)"
    for x
  proof (cases "x < 2 ^ 32")
    case True
    have "\<forall>i. 31 < int i \<and> i < 32 \<longrightarrow> bit x i = bit (0 :: ulong) i" by auto
    from dump_tree_count [OF assms _ _ z True this b] show ?thesis using True by simp
  next
    case False
    then have "filter (in_block x) blocks = []"
      by (simp add: filter_empty_conv in_block_def)
    then show ?thesis using False by simp
  qed
  then show ?thesis using b by blast
qed

text \<open>
  Runs that reach \<^verbatim>\<open>dump_output\<close>. Whenever \<^verbatim>\<open>read_input\<close> returns, \<^verbatim>\<open>dump_tree\<close> does
  not abort, and the blocks it prints are exactly the addresses committed by the calls of
  \<^verbatim>\<open>save_one_addr\<close>, \<^verbatim>\<open>save_range\<close> and \<^verbatim>\<open>save_cidr\<close> made while reading the input: an
  address is in a printed block if and only if a call committed it, every committed
  address is in exactly one printed block, and no address is in two printed blocks.
\<close>

lemma emitted_blocks_are_the_committed_addresses:
  assumes "read_input a0 a10 cs = Inr s"
  shows "\<exists>blocks. dump_tree (g_root s) 0 31 = Some blocks \<and>
     main a0 a10 cs = Exit 0 (concat (map printf_block blocks)) (g_stderr s) \<and>
     {x. \<exists>p \<in> set blocks. in_block x p} = (\<Union>c \<in> set (calls s). call_addrs c) \<and>
     (\<forall>x \<in> (\<Union>c \<in> set (calls s). call_addrs c). length (filter (in_block x) blocks) = 1) \<and>
     (\<forall>i j x. i < j \<and> j < length blocks \<longrightarrow>
        \<not> (in_block x (blocks ! i) \<and> in_block x (blocks ! j)))"
proof -
  have t: "tree_ok (g_root s) (calls s)"
    using assms by (rule tree_ok_read_input)
  then have f: "fits (g_root s) 31" by (simp add: tree_ok_def)
  from dump_root [OF f] obtain blocks where
    b: "dump_tree (g_root s) 0 31 = Some blocks"
    and n: "\<And>x. length (filter (in_block x) blocks) =
      (if x < 2 ^ 32 \<and> holds (g_root s) x 31 then 1 else 0)"
    by blast
  have h: "x < 2 ^ 32 \<and> holds (g_root s) x 31 \<longleftrightarrow> x \<in> (\<Union>c \<in> set (calls s). call_addrs c)"
    for x
    using t unfolding tree_ok_def by blast
  have m: "main a0 a10 cs = Exit 0 (concat (map printf_block blocks)) (g_stderr s)"
    using assms b by (simp add: main_def dump_output_def)
  have u: "{x. \<exists>p \<in> set blocks. in_block x p} = (\<Union>c \<in> set (calls s). call_addrs c)"
  proof -
    have "(\<exists>p \<in> set blocks. in_block x p) \<longleftrightarrow> x \<in> (\<Union>c \<in> set (calls s). call_addrs c)" for x
    proof -
      have "(\<exists>p \<in> set blocks. in_block x p) \<longleftrightarrow> filter (in_block x) blocks \<noteq> []"
        by (simp add: filter_empty_conv)
      also have "\<dots> \<longleftrightarrow> length (filter (in_block x) blocks) \<noteq> 0" by simp
      also have "\<dots> \<longleftrightarrow> x < 2 ^ 32 \<and> holds (g_root s) x 31" unfolding n by simp
      finally show ?thesis unfolding h .
    qed
    then show ?thesis by blast
  qed
  have o: "\<forall>x \<in> (\<Union>c \<in> set (calls s). call_addrs c). length (filter (in_block x) blocks) = 1"
    using n h by simp
  have d: "\<forall>i j x. i < j \<and> j < length blocks \<longrightarrow>
      \<not> (in_block x (blocks ! i) \<and> in_block x (blocks ! j))"
  proof (intro allI impI notI)
    fix i j x
    assume "i < j \<and> j < length blocks" and "in_block x (blocks ! i) \<and> in_block x (blocks ! j)"
    then have "2 \<le> length (filter (in_block x) blocks)"
      by (intro filter_twice [of i j]) simp_all
    then show False unfolding n by (simp split: if_splits)
  qed
  show ?thesis using b m u o d by blast
qed

lemma emitted_blocks_are_the_committed_addresses_witness:
  "read_input 0 0 (''128.0.0.0/1 0.0.0.0/2'' @ [CHR 0x0A]) =
     Inr \<lparr>p_state = 1, p_line = 2, p_n = 2, p_a = 0, p_a1 = 0,
          g_root = Node (Node ALL' NONE) ALL', g_stderr = [],
          calls = [Save_cidr 0x80000000 1, Save_cidr 0 2]\<rparr> \<and>
   (\<exists>blocks. dump_tree (Node (Node ALL' NONE) ALL') 0 31 = Some blocks \<and>
      main 0 0 (''128.0.0.0/1 0.0.0.0/2'' @ [CHR 0x0A]) =
        Exit 0 (concat (map printf_block blocks)) [] \<and>
      {x. \<exists>p \<in> set blocks. in_block x p} =
        call_addrs (Save_cidr 0x80000000 1) \<union> call_addrs (Save_cidr 0 2))"
proof -
  have r: "read_input 0 0 (''128.0.0.0/1 0.0.0.0/2'' @ [CHR 0x0A]) =
     Inr \<lparr>p_state = 1, p_line = 2, p_n = 2, p_a = 0, p_a1 = 0,
          g_root = Node (Node ALL' NONE) ALL', g_stderr = [],
          calls = [Save_cidr 0x80000000 1, Save_cidr 0 2]\<rparr>"
    by (simp add: read_input_def read_input_from_def at_eof_def step_defs digit_val_def
        init_state_def save_cidr_def cidr_base_def collapse_def)
  from emitted_blocks_are_the_committed_addresses [OF r] r show ?thesis
    by (simp del: dump_tree.simps) blast
qed

lemma pending_width_at_eof:
  "steps (init_state a0 a10) ''1.2.3.4 10.0.0.0/8'' =
     Inr \<lparr>p_state = 19, p_line = 1, p_n = 8, p_a = 0x0A000000, p_a1 = a10,
          g_root = save_one_addr 0x01020304 NONE, g_stderr = [],
          calls = [Save_one_addr 0x01020304]\<rparr>"
  by (simp add: step_defs digit_val_def init_state_def)

text \<open>
  C1. The claim: for every input, the printed blocks cover exactly the addresses
  committed from the input, each of them once. This holds for every run that returns from
  \<^verbatim>\<open>read_input\<close> (the lemma above), but not for every input: when the input ends in state
  18 or 19 the program calls \<^verbatim>\<open>abort()\<close> before \<^verbatim>\<open>dump_output\<close>, and what was committed
  until then is never printed. On \<^verbatim>\<open>1.2.3.4 10.0.0.0/8\<close> without a final line feed the
  digit after the blank has committed \<^verbatim>\<open>1.2.3.4\<close> (state 9), the tree holds it and
  \<^verbatim>\<open>dump_tree\<close> would print \<^verbatim>\<open>1.2.3.4/32\<close>, yet the input ends in state 19 and nothing
  is printed. With the line feed both blocks are printed.
\<close>

theorem committed_address_lost_at_eof:
  "(\<exists>s. steps (init_state a0 a10) ''1.2.3.4 10.0.0.0/8'' = Inr s \<and> p_state s = 19 \<and>
      calls s = [Save_one_addr 0x01020304] \<and> g_root s = save_one_addr 0x01020304 NONE) \<and>
   dump_tree (save_one_addr 0x01020304 NONE) 0 31 = Some [(0x01020304, 32)] \<and>
   main a0 a10 ''1.2.3.4 10.0.0.0/8'' = Fails Aborted \<and>
   main a0 a10 (''1.2.3.4 10.0.0.0/8'' @ [CHR 0x0A]) =
     Exit 0 (''1.2.3.4/32'' @ [CHR 0x0A] @ ''10.0.0.0/8'' @ [CHR 0x0A]) []"
proof (intro conjI)
  show "\<exists>s. steps (init_state a0 a10) ''1.2.3.4 10.0.0.0/8'' = Inr s \<and> p_state s = 19 \<and>
      calls s = [Save_one_addr 0x01020304] \<and> g_root s = save_one_addr 0x01020304 NONE"
    by (subst pending_width_at_eof) simp
  show "dump_tree (save_one_addr 0x01020304 NONE) 0 31 = Some [(0x01020304, 32)]"
    by code_simp
  show "main a0 a10 ''1.2.3.4 10.0.0.0/8'' = Fails Aborted"
    by code_simp
  show "main a0 a10 (''1.2.3.4 10.0.0.0/8'' @ [CHR 0x0A]) =
     Exit 0 (''1.2.3.4/32'' @ [CHR 0x0A] @ ''10.0.0.0/8'' @ [CHR 0x0A]) []"
    by code_simp
qed

lemma ulong_ff: "(0xff :: ulong) = mask 8"
  by (simp add: mask_eq_exp_minus_1)

lemma octet_low32:
  "k \<le> 24 \<Longrightarrow> drop_bit k (take_bit 32 v) AND 0xff = drop_bit k v AND (0xff :: ulong)"
  unfolding ulong_ff
  by (rule bit_word_eqI) (auto simp: bit_and_iff bit_mask_iff bit_drop_bit_eq bit_take_bit_iff)

lemma printf_block_low32: "printf_block (take_bit 32 v, w) = printf_block (v, w)"
  using octet_low32 [of 24 v] octet_low32 [of 16 v] octet_low32 [of 8 v] octet_low32 [of 0 v]
  by (simp add: printf_block_def)

text \<open>
  C2. Each of \<^verbatim>\<open>save_one_addr\<close>, \<^verbatim>\<open>save_cidr\<close> and \<^verbatim>\<open>save_range\<close> keeps invariant C (no
  node with two \<^verbatim>\<open>ALL\<close> children), so the root satisfies it after every character read
  and when \<^verbatim>\<open>read_input\<close> returns; and then no two printed blocks are buddies: no two
  have the same width \<open>w\<close> and addresses whose exclusive or is \<open>1 << (32 - w)\<close>. The
  address printed for a pair \<open>(v, w)\<close> is \<open>take_bit 32 v\<close> (lemma \<open>printf_block_low32\<close>).
\<close>

theorem canonical_tree_and_no_buddies:
  "(canonical rt \<longrightarrow> canonical (save_one_addr a rt) \<and> canonical (save_cidr a w rt)) \<and>
   (canonical rt \<and> save_range lo hi rt = Some (r, ds) \<longrightarrow> canonical r) \<and>
   (steps (init_state a0 a10) cs = Inr s \<longrightarrow> canonical (g_root s)) \<and>
   (read_input a0 a10 cs = Inr s \<longrightarrow>
      canonical (g_root s) \<and>
      (\<exists>blocks. dump_tree (g_root s) 0 31 = Some blocks \<and>
         main a0 a10 cs = Exit 0 (concat (map printf_block blocks)) (g_stderr s) \<and>
         (\<forall>p \<in> set blocks. \<forall>q \<in> set blocks.
            \<not> (snd p = snd q \<and>
               take_bit 32 (fst p) XOR take_bit 32 (fst q) = push_bit (nat (32 - snd p)) 1))))"
proof (intro conjI impI)
  assume "canonical rt"
  then show "canonical (save_one_addr a rt)" "canonical (save_cidr a w rt)"
    by (simp_all add: save_one_addr_def save_cidr_def canonical_add_to_node)
next
  assume a: "canonical rt \<and> save_range lo hi rt = Some (r, ds)"
  show "canonical r"
  proof (cases "lo > hi")
    case True
    then show ?thesis using a by (auto simp: save_range_def)
  next
    case False
    then have "save_range_loop lo hi rt = Some r"
      using a by (auto simp: save_range_def)
    from save_range_loop_canonical [OF this] a show ?thesis by simp
  qed
next
  assume "steps (init_state a0 a10) cs = Inr s"
  from inv_steps [OF inv_init this] show "canonical (g_root s)"
    by (simp add: run_inv_def tree_ok_def)
next
  assume r: "read_input a0 a10 cs = Inr s"
  have t: "tree_ok (g_root s) (calls s)"
    using r by (rule tree_ok_read_input)
  then show "canonical (g_root s)" by (simp add: tree_ok_def)
next
  assume r: "read_input a0 a10 cs = Inr s"
  have t: "tree_ok (g_root s) (calls s)"
    using r by (rule tree_ok_read_input)
  then have f: "fits (g_root s) 31" and c: "canonical (g_root s)"
    by (simp_all add: tree_ok_def)
  have z: "\<forall>i. int i \<le> 31 \<longrightarrow> \<not> bit (0 :: ulong) i" by simp
  from dump_tree_shape [OF f _ _ z] obtain blocks where
    b: "dump_tree (g_root s) 0 31 = Some blocks" by auto
  have m: "main a0 a10 cs = Exit 0 (concat (map printf_block blocks)) (g_stderr s)"
    using r b by (simp add: main_def dump_output_def)
  have "\<forall>p \<in> set blocks. \<forall>q \<in> set blocks.
      \<not> (snd p = snd q \<and>
         take_bit 32 (fst p) XOR take_bit 32 (fst q) = push_bit (nat (32 - snd p)) 1)"
    using dump_tree_no_buddies [OF c f _ _ z b] by auto
  then show "\<exists>blocks. dump_tree (g_root s) 0 31 = Some blocks \<and>
      main a0 a10 cs = Exit 0 (concat (map printf_block blocks)) (g_stderr s) \<and>
      (\<forall>p \<in> set blocks. \<forall>q \<in> set blocks.
         \<not> (snd p = snd q \<and>
            take_bit 32 (fst p) XOR take_bit 32 (fst q) = push_bit (nat (32 - snd p)) 1))"
    using b m by blast
qed

theorem canonical_tree_and_no_buddies_witness:
  "canonical (Node ALL' NONE) \<and> save_cidr 0x80000000 1 (Node ALL' NONE) = ALL' \<and>
   canonical (save_cidr 0x80000000 1 (Node ALL' NONE)) \<and>
   read_input 0 0 (''10.0.0.0/31 10.0.0.2/31'' @ [CHR 0x0A]) =
     Inr \<lparr>p_state = 1, p_line = 2, p_n = 31, p_a = 0x0A000002, p_a1 = 0,
          g_root = save_cidr 0x0A000002 31 (save_cidr 0x0A000000 31 NONE), g_stderr = [],
          calls = [Save_cidr 0x0A000000 31, Save_cidr 0x0A000002 31]\<rparr> \<and>
   canonical (save_cidr 0x0A000002 31 (save_cidr 0x0A000000 31 NONE)) \<and>
   main 0 0 (''10.0.0.0/31 10.0.0.2/31'' @ [CHR 0x0A]) = Exit 0 (''10.0.0.0/30'' @ [CHR 0x0A]) []"
proof -
  let ?s = "\<lparr>p_state = 1, p_line = 2, p_n = 31, p_a = 0x0A000002, p_a1 = 0,
          g_root = save_cidr 0x0A000002 31 (save_cidr 0x0A000000 31 NONE), g_stderr = [],
          calls = [Save_cidr 0x0A000000 31, Save_cidr 0x0A000002 31]\<rparr>"
  have c: "canonical (Node ALL' NONE)" by simp
  have k: "save_cidr 0x80000000 1 (Node ALL' NONE) = ALL'"
    by (simp add: save_cidr_def cidr_base_def collapse_def)
  have r: "read_input 0 0 (''10.0.0.0/31 10.0.0.2/31'' @ [CHR 0x0A]) = Inr ?s"
    by (simp add: read_input_def read_input_from_def at_eof_def step_defs digit_val_def
        init_state_def)
  have m: "main 0 0 (''10.0.0.0/31 10.0.0.2/31'' @ [CHR 0x0A]) =
      Exit 0 (''10.0.0.0/30'' @ [CHR 0x0A]) []"
    by code_simp
  from canonical_tree_and_no_buddies
    [of "Node ALL' NONE" "0x80000000" 1 0 0 "ALL'" "[]" 0 0
      "''10.0.0.0/31 10.0.0.2/31'' @ [CHR 0x0A]" ?s] c k r m
  show ?thesis by simp
qed

subsection \<open>Three ways to enter a block\<close>

lemma collapse_ALL: "collapse ALL' ALL' = ALL'"
  by (simp add: collapse_def)

lemma add_buddies:
  assumes "0 \<le> e" and "e \<le> b" and "\<not> bit a (nat e)" and "bit a' (nat e)"
    and "\<forall>i. e < int i \<and> int i \<le> b \<longrightarrow> bit a' i = bit a i"
  shows "add_to_node (add_to_node n a b (e - 1)) a' b (e - 1) = add_to_node n a b e"
  using assms
proof (induction n a b e rule: add_to_node.induct)
  case (1 a b e)
  then show ?case by simp
next
  case (2 a b e)
  show ?case
  proof (cases "b \<le> e")
    case True
    then have be: "b = e" using 2(4) by simp
    show ?thesis
      using 2(3,5,6) unfolding be
      by (simp add: index_bit add_to_node_at_level collapse_def)
  next
    case False
    then have b: "e \<le> b - 1" "0 \<le> b" "\<not> b \<le> e - 1" using 2(3,4) by auto
    have same: "bit a' (nat b) = bit a (nat b)"
      using 2(7) False b(2) by simp
    have rest: "\<forall>i. e < int i \<and> int i \<le> b - 1 \<longrightarrow> bit a' i = bit a i"
      using 2(7) by simp
    show ?thesis
    proof (cases "drop_bit (nat b) a AND 1 = 0")
      case True
      note IH = 2(1) [OF False True 2(3) b(1) 2(5,6) rest]
      have a'0: "drop_bit (nat b) a' AND 1 = 0"
        using True same by (simp add: index_bit)
      show ?thesis
        using False True a'0 b(3) IH by (simp add: collapse_def)
    next
      case F: False
      note IH = 2(2) [OF False F 2(3) b(1) 2(5,6) rest]
      have a'1: "drop_bit (nat b) a' AND 1 \<noteq> 0"
        using F same by (simp add: index_bit)
      show ?thesis
        using False F a'1 b(3) IH by (simp add: collapse_def)
    qed
  qed
next
  case (3 s0 s1 a b e)
  show ?case
  proof (cases "b \<le> e")
    case True
    then have be: "b = e" using 3(4) by simp
    show ?thesis
      using 3(3,5,6) unfolding be
      by (simp add: index_bit add_to_node_at_level collapse_def)
  next
    case False
    then have b: "e \<le> b - 1" "0 \<le> b" "\<not> b \<le> e - 1" using 3(3,4) by auto
    have same: "bit a' (nat b) = bit a (nat b)"
      using 3(7) False b(2) by simp
    have rest: "\<forall>i. e < int i \<and> int i \<le> b - 1 \<longrightarrow> bit a' i = bit a i"
      using 3(7) by simp
    show ?thesis
    proof (cases "drop_bit (nat b) a AND 1 = 0")
      case True
      note IH = 3(1) [OF False True 3(3) b(1) 3(5,6) rest]
      have a'0: "drop_bit (nat b) a' AND 1 = 0"
        using True same by (simp add: index_bit)
      show ?thesis
      proof (cases "add_to_node s0 a (b - 1) (e - 1) = ALL' \<and> s1 = ALL'")
        case c: True
        then have "add_to_node s0 a (b - 1) e = ALL'"
          using IH by simp
        then show ?thesis
          using False True b(3) c by (simp add: collapse_def)
      next
        case c: False
        then show ?thesis
          using False True a'0 b(3) IH by (auto simp: collapse_def)
      qed
    next
      case F: False
      note IH = 3(2) [OF False F 3(3) b(1) 3(5,6) rest]
      have a'1: "drop_bit (nat b) a' AND 1 \<noteq> 0"
        using F same by (simp add: index_bit)
      show ?thesis
      proof (cases "s0 = ALL' \<and> add_to_node s1 a (b - 1) (e - 1) = ALL'")
        case c: True
        then have "add_to_node s1 a (b - 1) e = ALL'"
          using IH by simp
        then show ?thesis
          using False F b(3) c by (simp add: collapse_def)
      next
        case c: False
        then show ?thesis
          using False F a'1 b(3) IH by (auto simp: collapse_def)
      qed
    qed
  qed
qed

lemma add_to_node_bits:
  assumes "- 1 \<le> e" and "\<forall>i. e < int i \<and> int i \<le> b \<longrightarrow> bit a' i = bit a i"
  shows "add_to_node n a' b e = add_to_node n a b e"
  using assms
proof (induction n a b e rule: add_to_node.induct)
  case (1 a b e)
  then show ?case by simp
next
  case (2 a b e)
  show ?case
  proof (cases "b \<le> e")
    case True
    then show ?thesis by simp
  next
    case False
    then have "bit a' (nat b) = bit a (nat b)" using 2(3,4) by simp
    then have i: "drop_bit (nat b) a' AND 1 = 0 \<longleftrightarrow> drop_bit (nat b) a AND 1 = 0"
      by (simp add: index_bit)
    have rest: "\<forall>i. e < int i \<and> int i \<le> b - 1 \<longrightarrow> bit a' i = bit a i"
      using 2(4) by simp
    show ?thesis
      using False i 2(1) [OF False _ 2(3) rest] 2(2) [OF False _ 2(3) rest] by simp
  qed
next
  case (3 s0 s1 a b e)
  show ?case
  proof (cases "b \<le> e")
    case True
    then show ?thesis by simp
  next
    case False
    then have "bit a' (nat b) = bit a (nat b)" using 3(3,4) by simp
    then have i: "drop_bit (nat b) a' AND 1 = 0 \<longleftrightarrow> drop_bit (nat b) a AND 1 = 0"
      by (simp add: index_bit)
    have rest: "\<forall>i. e < int i \<and> int i \<le> b - 1 \<longrightarrow> bit a' i = bit a i"
      using 3(4) by simp
    show ?thesis
      using False i 3(1) [OF False _ 3(3) rest] 3(2) [OF False _ 3(3) rest] by simp
  qed
qed

lemma bit_add_exp:
  fixes base :: ulong
  assumes "take_bit (Suc k) base = 0" and "k < 64"
  shows "bit (base + 2 ^ k) i \<longleftrightarrow> bit base i \<or> i = k"
proof -
  have z: "\<not> bit base j" if "j \<le> k" for j
  proof -
    have "bit (take_bit (Suc k) base) j = bit base j"
      using that by (simp add: bit_take_bit_iff)
    then show ?thesis using assms(1) by simp
  qed
  have "base + 2 ^ k = base OR 2 ^ k"
    by (rule disjunctive_add) (use z in \<open>auto simp: bit_exp_iff\<close>)
  then show ?thesis using assms(2) by (auto simp: bit_or_iff bit_exp_iff)
qed

lemma fold_addresses:
  "k \<le> 32 \<Longrightarrow> take_bit k base = 0 \<Longrightarrow>
   fold save_one_addr (map (\<lambda>i. base + of_nat i) [0..<2 ^ k]) rt =
     add_to_node rt base 31 (int k - 1)"
proof (induction k arbitrary: base rt)
  case 0
  then show ?case by (simp add: save_one_addr_def)
next
  case (Suc k)
  have k: "k \<le> 32" "k < 64" "k \<le> 31" using Suc.prems(1) by simp_all
  have z0: "take_bit k base = 0"
    using Suc.prems(2) by (rule take_bit_Suc_zero)
  have bits: "bit (base + 2 ^ k) i \<longleftrightarrow> bit base i \<or> i = k" for i
    using bit_add_exp [OF Suc.prems(2) k(2)] .
  have nb: "\<not> bit base k"
  proof -
    have "bit (take_bit (Suc k) base) k = bit base k" by (simp add: bit_take_bit_iff)
    then show ?thesis using Suc.prems(2) by simp
  qed
  have z1: "take_bit k (base + 2 ^ k) = 0"
  proof (rule bit_word_eqI)
    fix i assume "i < LENGTH(64)"
    have "\<not> bit base i" if "i < k"
    proof -
      have "bit (take_bit k base) i = bit base i" using that by (simp add: bit_take_bit_iff)
      then show ?thesis using z0 by simp
    qed
    then show "bit (take_bit k (base + 2 ^ k)) i \<longleftrightarrow> bit (0 :: ulong) i"
      by (auto simp: bit_take_bit_iff bits)
  qed
  have e: "(2::nat) ^ Suc k = 2 ^ k + 2 ^ k" by simp
  have split: "[0..<2 ^ Suc k] = [0..<2 ^ k] @ [2 ^ k..<2 ^ k + 2 ^ k]"
    unfolding e by (rule upt_add_eq_append) simp
  have shift: "map (\<lambda>i. base + of_nat i) [2 ^ k..<2 ^ k + 2 ^ k] =
      map (\<lambda>i. (base + 2 ^ k) + of_nat i) [0..<2 ^ k]"
  proof -
    have "[2 ^ k..<2 ^ k + 2 ^ k] = map (\<lambda>i. i + 2 ^ k) [0..<2 ^ k]"
      by (simp only: map_add_upt)
    then have "map (\<lambda>i. base + of_nat i) [2 ^ k..<2 ^ k + 2 ^ k] =
        map (\<lambda>i. base + of_nat (i + 2 ^ k)) [0..<2 ^ k]"
      by (simp only: map_map comp_def)
    also have "\<dots> = map (\<lambda>i. (base + 2 ^ k) + of_nat i) [0..<2 ^ k]"
      by (simp add: add.assoc add.commute)
    finally show ?thesis .
  qed
  have "fold save_one_addr (map (\<lambda>i. base + of_nat i) [0..<2 ^ Suc k]) rt =
      fold save_one_addr (map (\<lambda>i. (base + 2 ^ k) + of_nat i) [0..<2 ^ k])
        (fold save_one_addr (map (\<lambda>i. base + of_nat i) [0..<2 ^ k]) rt)"
    unfolding split map_append fold_append shift by simp
  also have "\<dots> = add_to_node (add_to_node rt base 31 (int k - 1)) (base + 2 ^ k) 31 (int k - 1)"
    unfolding Suc.IH [OF k(1) z0] Suc.IH [OF k(1) z1] ..
  also have "\<dots> = add_to_node rt base 31 (int k)"
  proof (rule add_buddies)
    show "0 \<le> int k" "int k \<le> 31" using k(3) by simp_all
    show "\<not> bit base (nat (int k))" using nb by simp
    show "bit (base + 2 ^ k) (nat (int k))" by (simp add: bits)
    show "\<forall>i. int k < int i \<and> int i \<le> 31 \<longrightarrow> bit (base + 2 ^ k) i = bit base i"
      by (auto simp: bits)
  qed
  finally show ?case by simp
qed

lemma aligned_room32:
  fixes A :: nat
  assumes "2 ^ k dvd A" and "A < 2 ^ 32" and "k \<le> 32"
  shows "A + 2 ^ k \<le> 2 ^ 32"
proof -
  obtain q where q: "A = 2 ^ k * q" using assms(1) by (auto elim: dvdE)
  have p: "(2::nat) ^ 32 = 2 ^ k * 2 ^ (32 - k)"
    using assms(3) by (simp flip: power_add)
  have "q < 2 ^ (32 - k)"
    using assms(2) unfolding q p by simp
  then have "q + 1 \<le> 2 ^ (32 - k)" by simp
  then have "2 ^ k * (q + 1) \<le> 2 ^ k * 2 ^ (32 - k)"
    by (rule mult_le_mono2)
  then show ?thesis unfolding q p by simp
qed

lemma range_of_block:
  assumes "k \<le> 32" and "take_bit k base = 0" and "unat base < 2 ^ 32"
  shows "save_range base (base + mask k) rt = Some (add_to_node rt base 31 (int k - 1), [])"
proof -
  let ?hi = "base + mask k"
  have k64: "k \<le> 64" using assms(1) by simp
  have d: "2 ^ k dvd unat base" using assms(2) by (simp only: aligned_iff)
  have uh: "unat ?hi = unat base + (2 ^ k - 1)"
    using unat_add_mask [OF assms(2) k64] .
  have room: "unat base + 2 ^ k \<le> 2 ^ 32"
    using aligned_room32 [OF d assms(3,1)] .
  have p: "0 < (2::nat) ^ k" by simp
  have h32: "unat ?hi < 2 ^ 32" using room p unfolding uh by linarith
  have le: "base \<le> ?hi" unfolding word_le_nat_alt uh using p by linarith
  have fit: "unat base + 2 ^ k \<le> unat ?hi + 1" using p unfolding uh by linarith
  from range_block [OF le h32] obtain k' where k': "k' \<le> 32"
    "shrink base ?hi ((base - 1) AND NOT base) = Some (mask k')"
    "unat base + 2 ^ k' \<le> unat ?hi + 1"
    "\<forall>i. 2 ^ i dvd unat base \<and> unat base + 2 ^ i \<le> unat ?hi + 1 \<longrightarrow> i \<le> k'"
    by blast
  have "k \<le> k'" using k'(4) d fit by blast
  moreover have "k' \<le> k"
  proof -
    have "(2::nat) ^ k' \<le> 2 ^ k" using k'(3) p unfolding uh by linarith
    then show ?thesis by (rule power_le_imp_le_exp [rotated]) simp
  qed
  ultimately have kk: "k' = k" by simp
  have ua: "unat (base + 2 ^ k) = unat base + 2 ^ k"
    using unat_advance [OF fit h32 assms(1)] .
  have "\<not> base + 2 ^ k \<le> ?hi"
    unfolding word_le_nat_alt ua uh using p by linarith
  then have "save_range_loop (base + 2 ^ k) ?hi (add_to_node rt base 31 (int k - 1)) =
      Some (add_to_node rt base 31 (int k - 1))"
    by (subst save_range_loop.simps) simp
  then have "save_range_loop base ?hi rt = Some (add_to_node rt base 31 (int k - 1))"
    using loop_unfold [OF le k'(2) [unfolded kk] assms(1), of rt] by simp
  then show ?thesis using le by (simp add: save_range_def)
qed

lemma cidr_base_aligned:
  assumes "0 \<le> w" and "w \<le> 32"
  shows "take_bit (nat (32 - w)) (cidr_base a w) = 0" and "unat (cidr_base a w) < 2 ^ 32"
proof -
  show "take_bit (nat (32 - w)) (cidr_base a w) = 0"
    by (rule bit_word_eqI) (auto simp: bit_take_bit_iff bit_cidr_base [OF assms])
  have "\<forall>i. bit (cidr_base a w) i \<longrightarrow> i < 32"
    by (simp add: bit_cidr_base [OF assms])
  then show "unat (cidr_base a w) < 2 ^ 32"
    using small_iff_bits [of 32 "cidr_base a w"] by simp
qed

text \<open>
  C8. For a block of width \<open>w\<close> between 0 and 32 at the address \<open>a\<close>, the three ways of
  entering it leave the same tree, whatever the tree was before, and so the same output:
  \<^verbatim>\<open>save_cidr(a, w)\<close>; \<^verbatim>\<open>save_range\<close> from the first to the last address of the block; and
  \<^verbatim>\<open>save_one_addr\<close> on each address of the block in turn, in ascending order. And
  \<^verbatim>\<open>save_one_addr(a)\<close> is \<^verbatim>\<open>save_cidr(a, 32)\<close>.
\<close>

theorem block_range_and_addresses_agree:
  assumes "0 \<le> w" and "w \<le> 32"
  shows "save_range (cidr_base a w) (cidr_base a w + mask (nat (32 - w))) rt =
       Some (save_cidr a w rt, []) \<and>
     fold save_one_addr (map (\<lambda>i. cidr_base a w + of_nat i) [0..<2 ^ nat (32 - w)]) rt =
       save_cidr a w rt \<and>
     save_one_addr a rt = save_cidr a 32 rt"
proof (intro conjI)
  let ?k = "nat (32 - w)"
  have k: "?k \<le> 32" "int ?k - 1 = 31 - w" using assms by simp_all
  note al = cidr_base_aligned [OF assms, of a]
  show "save_range (cidr_base a w) (cidr_base a w + mask ?k) rt = Some (save_cidr a w rt, [])"
    unfolding save_cidr_def k(2) [symmetric] by (rule range_of_block [OF k(1) al])
  show "fold save_one_addr (map (\<lambda>i. cidr_base a w + of_nat i) [0..<2 ^ ?k]) rt =
      save_cidr a w rt"
    unfolding save_cidr_def k(2) [symmetric] by (rule fold_addresses [OF k(1) al(1)])
  have "\<forall>i. - 1 < int i \<and> int i \<le> 31 \<longrightarrow> bit (cidr_base a 32) i = bit a i"
    using bit_cidr_base [of 32 a] by auto
  then have "add_to_node rt (cidr_base a 32) 31 (- 1) = add_to_node rt a 31 (- 1)"
    by (intro add_to_node_bits) simp_all
  then show "save_one_addr a rt = save_cidr a 32 rt"
    by (simp add: save_one_addr_def save_cidr_def)
qed

theorem block_range_and_addresses_agree_witness:
  "(0::int) \<le> 30 \<and> (30::int) \<le> 32 \<and> cidr_base 0x0A000001 30 = 0x0A000000 \<and>
   save_range 0x0A000000 0x0A000003 NONE = Some (save_cidr 0x0A000001 30 NONE, []) \<and>
   fold save_one_addr [0x0A000000, 0x0A000001, 0x0A000002, 0x0A000003] NONE =
     save_cidr 0x0A000001 30 NONE \<and>
   save_one_addr 0x0A000001 NONE = save_cidr 0x0A000001 32 NONE \<and>
   main 0 0 (''10.0.0.1/30'' @ [CHR 0x0A]) = Exit 0 (''10.0.0.0/30'' @ [CHR 0x0A]) [] \<and>
   main 0 0 (''10.0.0.0 - 10.0.0.3'' @ [CHR 0x0A]) = Exit 0 (''10.0.0.0/30'' @ [CHR 0x0A]) [] \<and>
   main 0 0 (''10.0.0.0 10.0.0.1 10.0.0.2 10.0.0.3'' @ [CHR 0x0A]) =
     Exit 0 (''10.0.0.0/30'' @ [CHR 0x0A]) []"
proof -
  have c: "cidr_base 0x0A000001 30 = 0x0A000000"
    by (simp add: cidr_base_def)
  have l: "map (\<lambda>i. (0x0A000000 :: ulong) + of_nat i) [0..<2 ^ nat (32 - 30)] =
      [0x0A000000, 0x0A000001, 0x0A000002, 0x0A000003]"
    by (simp add: upt_rec)
  have m: "(0x0A000000 :: ulong) + mask (nat (32 - 30)) = 0x0A000003"
    by (simp add: mask_eq_exp_minus_1)
  have r: "main 0 0 (''10.0.0.1/30'' @ [CHR 0x0A]) = Exit 0 (''10.0.0.0/30'' @ [CHR 0x0A]) []"
    "main 0 0 (''10.0.0.0 - 10.0.0.3'' @ [CHR 0x0A]) = Exit 0 (''10.0.0.0/30'' @ [CHR 0x0A]) []"
    "main 0 0 (''10.0.0.0 10.0.0.1 10.0.0.2 10.0.0.3'' @ [CHR 0x0A]) =
      Exit 0 (''10.0.0.0/30'' @ [CHR 0x0A]) []"
    by code_simp+
  from block_range_and_addresses_agree [of 30 "0x0A000001" NONE]
  have "save_range (cidr_base 0x0A000001 30) (cidr_base 0x0A000001 30 + mask (nat (32 - 30))) NONE =
       Some (save_cidr 0x0A000001 30 NONE, []) \<and>
     fold save_one_addr (map (\<lambda>i. cidr_base 0x0A000001 30 + of_nat i) [0..<2 ^ nat (32 - 30)]) NONE =
       save_cidr 0x0A000001 30 NONE \<and>
     save_one_addr 0x0A000001 NONE = save_cidr 0x0A000001 32 NONE"
    by simp
  then show ?thesis unfolding c l m using r c by simp
qed

subsection \<open>How a run can fail\<close>

text \<open>
  Reading the characters never fails: no \<^verbatim>\<open>switch\<close> reaches its \<^verbatim>\<open>default: abort()\<close>
  and \<^verbatim>\<open>save_range\<close> always returns. The one failure is the \<^verbatim>\<open>abort()\<close> of the
  \<^verbatim>\<open>switch\<close> after the loop, when the input ends in state 18 or 19; \<^verbatim>\<open>dump_tree\<close> never
  aborts.
\<close>

lemma on_digit_returns: "bounded s \<Longrightarrow> \<exists>s'. on_digit s d = Inr s'"
  by (cases "p_state s" rule: state_cases; clarsimp simp: on_digit_def bounded_def Let_def)

lemma on_dot_returns: "bounded s \<Longrightarrow> \<exists>s'. on_dot s = Inr s'"
  by (cases "p_state s" rule: state_cases; clarsimp simp: on_dot_def bounded_def Let_def)

lemma on_dash_returns: "bounded s \<Longrightarrow> \<exists>s'. on_dash s = Inr s'"
  by (cases "p_state s" rule: state_cases; clarsimp simp: on_dash_def bounded_def)

lemma on_slash_returns: "bounded s \<Longrightarrow> \<exists>s'. on_slash s = Inr s'"
  by (cases "p_state s" rule: state_cases; clarsimp simp: on_slash_def bounded_def)

lemma range_args_bounded:
  assumes "bounded s" and "p_state s = 17" and "0 \<le> p_n s"
  shows "unat (shift_in (p_a s) (p_n s)) < 2 ^ 32"
proof -
  have "unat (shift_in (p_a s) (p_n s)) < 4294967296"
    using assms by (intro shift_in_fourth) (simp_all add: bounded_def)
  then show ?thesis by simp
qed

lemma on_space_returns:
  assumes "run_inv s"
  shows "\<exists>s'. on_space s = Inr s'"
proof (cases "p_state s = 17 \<and> 0 \<le> p_n s")
  case True
  have t: "tree_ok (g_root s) (calls s)" and b: "bounded s"
    using assms by (simp_all add: run_inv_def)
  from do_save_range_returns [OF t range_args_bounded [OF b], of "p_a1 s"] True
  obtain s1 where "do_save_range (p_a1 s) (shift_in (p_a s) (p_n s)) s = Inr s1"
    by blast
  then show ?thesis using True by (simp add: on_space_def)
next
  case False
  then show ?thesis
    using assms
    by (cases "p_state s" rule: state_cases; clarsimp simp: on_space_def run_inv_def bounded_def)
qed

lemma step_returns:
  assumes "run_inv s"
  shows "\<exists>s'. step s c = Inr s'"
proof -
  have b: "bounded s" using assms by (simp add: run_inv_def)
  have l: "run_inv (s\<lparr>p_line := p_line s + 1\<rparr>)"
    using assms by (simp add: run_inv_def bounded_def)
  show ?thesis
    unfolding step_def
    using on_digit_returns [OF b] on_dot_returns [OF b] on_dash_returns [OF b]
      on_slash_returns [OF b] on_space_returns [OF assms] on_space_returns [OF l]
    by (simp add: on_other_def)
qed

lemma steps_return: "run_inv s \<Longrightarrow> \<exists>s'. steps s cs = Inr s' \<and> run_inv s'"
proof (induction cs arbitrary: s)
  case Nil
  then show ?case by simp
next
  case (Cons c cs)
  from step_returns [OF Cons.prems] obtain s1 where s1: "step s c = Inr s1" by blast
  from Cons.IH [OF inv_step [OF Cons.prems s1]] s1 show ?case by simp
qed

lemma at_eof_fails_iff:
  assumes "run_inv s"
  shows "at_eof s = Inl e \<longleftrightarrow> e = Aborted \<and> (p_state s = 18 \<or> p_state s = 19)"
proof (cases "p_state s = 17 \<and> 0 \<le> p_n s")
  case True
  have t: "tree_ok (g_root s) (calls s)" and b: "bounded s"
    using assms by (simp_all add: run_inv_def)
  from do_save_range_returns [OF t range_args_bounded [OF b], of "p_a1 s"] True
  obtain s1 where "do_save_range (p_a1 s) (shift_in (p_a s) (p_n s)) s = Inr s1"
    by blast
  then show ?thesis using True by (simp add: at_eof_def)
next
  case False
  then show ?thesis
    using assms
    by (cases "p_state s" rule: state_cases;
        clarsimp simp: at_eof_def run_inv_def bounded_def; blast)
qed

lemma read_input_fails_iff:
  "read_input a0 a10 cs = Inl e \<longleftrightarrow>
     e = Aborted \<and> (\<exists>s. steps (init_state a0 a10) cs = Inr s \<and> (p_state s = 18 \<or> p_state s = 19))"
proof -
  from steps_return [OF inv_init, of a0 a10 cs] obtain s where
    s: "steps (init_state a0 a10) cs = Inr s" "run_inv s" by blast
  show ?thesis
    using s(1) at_eof_fails_iff [OF s(2), of e]
    by (simp add: read_input_def read_input_from_def)
qed

lemma main_fails_iff:
  "main a0 a10 cs = Fails e \<longleftrightarrow>
     e = Aborted \<and> (\<exists>s. steps (init_state a0 a10) cs = Inr s \<and> (p_state s = 18 \<or> p_state s = 19))"
proof (cases "read_input a0 a10 cs")
  case (Inl e')
  then show ?thesis using read_input_fails_iff [of a0 a10 cs e'] read_input_fails_iff [of a0 a10 cs e]
    by (auto simp: main_def)
next
  case (Inr s)
  then have "fits (g_root s) 31"
    using tree_ok_read_input [OF Inr] by (simp add: tree_ok_def)
  from dump_root [OF this] obtain blocks where "dump_tree (g_root s) 0 31 = Some blocks"
    by blast
  then have "main a0 a10 cs = Exit 0 (concat (map printf_block blocks)) (g_stderr s)"
    using Inr by (simp add: main_def dump_output_def)
  moreover have "\<not> (\<exists>e. read_input a0 a10 cs = Inl e)" using Inr by simp
  ultimately show ?thesis using read_input_fails_iff [of a0 a10 cs e] Inr by auto
qed

text \<open>
  C5. The claim: end of input after a completed width commits the block as white space
  would, and the program exits with status 0. The \<^verbatim>\<open>switch\<close> after the loop has no case
  for state 19 (nor 18), so the program calls \<^verbatim>\<open>abort()\<close>; with a line feed after the
  width the block is committed and printed. A run fails exactly when the input ends in
  state 18 or 19, and then by \<^verbatim>\<open>abort()\<close>.
\<close>

theorem eof_after_width_aborts:
  "main a0 a10 ''10.0.0.0/8'' = Fails Aborted \<and>
   main a0 a10 (''10.0.0.0/8'' @ [CHR 0x0A]) = Exit 0 (''10.0.0.0/8'' @ [CHR 0x0A]) [] \<and>
   (main a0 a10 cs = Fails e \<longleftrightarrow>
      e = Aborted \<and>
      (\<exists>s. steps (init_state a0 a10) cs = Inr s \<and> (p_state s = 18 \<or> p_state s = 19)))"
proof (intro conjI)
  show "main a0 a10 ''10.0.0.0/8'' = Fails Aborted"
    by code_simp
  show "main a0 a10 (''10.0.0.0/8'' @ [CHR 0x0A]) = Exit 0 (''10.0.0.0/8'' @ [CHR 0x0A]) []"
    by code_simp
  show "main a0 a10 cs = Fails e \<longleftrightarrow>
      e = Aborted \<and>
      (\<exists>s. steps (init_state a0 a10) cs = Inr s \<and> (p_state s = 18 \<or> p_state s = 19))"
    by (rule main_fails_iff)
qed

text \<open>
  The outer loop of \<^verbatim>\<open>save_range\<close> has no test for wrap-around: when \<^verbatim>\<open>a2\<close> is the largest
  \<^verbatim>\<open>unsigned long\<close>, \<^verbatim>\<open>a1 <= a2\<close> holds for every \<^verbatim>\<open>a1\<close>, \<^verbatim>\<open>a1 += m+1\<close> wraps and the
  loop does not end, whatever \<^verbatim>\<open>a1\<close> it starts from. With 64-bit
  arithmetic this is out of reach of the parser, which passes 32-bit addresses only.
\<close>

lemma range_loop_wraps: "save_range_loop a1 (- 1) rt = None"
proof (rule ccontr)
  assume "save_range_loop a1 (- 1) rt \<noteq> None"
  then obtain r where r: "save_range_loop a1 (- 1) rt = Some r" by auto
  have "(- 1 :: ulong) \<noteq> - 1"
  proof (rule save_range_loop.raw_induct [where P = "\<lambda>a1 a2 rt r. a2 \<noteq> - 1", OF _ r])
    fix f and a1 a2 :: ulong and rt r
    assume IH: "\<And>a1 a2 rt r. f a1 a2 rt = Some r \<Longrightarrow> a2 \<noteq> - 1"
      and body: "(if a1 \<le> a2 then
        Option.bind (shrink a1 a2 ((a1 - 1) AND NOT a1))
          (\<lambda>m. f (a1 + (m + 1)) a2 (add_to_node rt a1 31 (count_bit (- 1) m)))
      else Some rt) = Some r"
    show "a2 \<noteq> - 1"
    proof (cases "a1 \<le> a2")
      case True
      then obtain m where "f (a1 + (m + 1)) a2 (add_to_node rt a1 31 (count_bit (- 1) m)) = Some r"
        using body by (auto simp: bind_eq_Some_conv)
      then show ?thesis by (rule IH)
    next
      case False
      then show ?thesis by auto
    qed
  qed
  then show False by simp
qed

end
